theory Spec2Isabelle
  imports Complex_Main "HOL-Library.Multiset"
begin

section \<open>Data model of \<^verbatim>\<open>enrichm/comparer.py\<close>\<close>

text \<open>
  The module is Python 2. Exceptions are values of \<open>error\<close>; a function that can raise
  returns \<open>error + 'a\<close> with \<open>Inl\<close> for the exception. Unpacking a sequence into more
  targets than it has values raises \<^verbatim>\<open>ValueError: need more than n values to unpack\<close>, with
  the number \<open>n\<close> of values it has; unpacking it into fewer targets raises
  \<^verbatim>\<open>ValueError: too many values to unpack\<close>, which carries no number. The error of
  \<^verbatim>\<open>float\<close> is tagged with the string that was converted.
\<close>

datatype error =
    ValueError_need_more nat
  | ValueError_too_many
  | ValueError_float string
  | ValueError_empty
  | DuplicateEntry string
  | KeyError string
  | TypeError
  | ZeroDivisionError
  | UnboundLocalError string
  | LibraryError string

definition unpack_error :: "nat \<Rightarrow> nat \<Rightarrow> error" where
  "unpack_error targets n =
     (if n < targets then ValueError_need_more n else ValueError_too_many)"

text \<open>
  The class \<^verbatim>\<open>Genome\<close> lives in another module; \<^verbatim>\<open>comparer.py\<close> reads the attributes
  below. A dict whose iteration order the code relies on is an association list with
  distinct keys; a Python set is a HOL set.
\<close>

record genome =
  name :: string
  sequences :: "(string \<times> string) list"
  clusters :: "string set"
  orthologs :: "string set"
  protein_ordered_dict :: "(int \<times> string) list"

section \<open>\<^verbatim>\<open>itertools.combinations\<close>\<close>

text \<open>
  \<^verbatim>\<open>combinations(iterable, r)\<close> yields the \<open>r\<close>-length subsequences of the input,
  in lexicographic order of positions.
\<close>

fun combinations :: "'a list \<Rightarrow> nat \<Rightarrow> 'a list list" where
  "combinations xs 0 = [[]]"
| "combinations [] (Suc r) = []"
| "combinations (x # xs) (Suc r) =
     map ((#) x) (combinations xs r) @ combinations xs (Suc r)"

section \<open>\<^verbatim>\<open>saturate\<close>\<close>

text \<open>
  The inner loop of \<^verbatim>\<open>saturate\<close> (lines 268 to 273): one pass over \<^verbatim>\<open>orthologs\<close>
  with the two counters \<^verbatim>\<open>core_count\<close> and \<^verbatim>\<open>accessory_count\<close>.
\<close>

fun count_orthologs :: "genome list \<Rightarrow> string list \<Rightarrow> nat \<times> nat \<Rightarrow> nat \<times> nat" where
  "count_orthologs combination [] (core_count, accessory_count) =
     (core_count, accessory_count)"
| "count_orthologs combination (ortholog # rest) (core_count, accessory_count) =
     (let hits = length [True. genome \<leftarrow> combination, ortholog \<in> orthologs genome];
          combination_length = length combination
      in if hits = combination_length
         then count_orthologs combination rest (core_count + 1, accessory_count)
         else count_orthologs combination rest (core_count, accessory_count + 1))"

text \<open>
  The loop over the combinations of one size (lines 258 to 275): the lists
  \<^verbatim>\<open>core_counts\<close> and \<^verbatim>\<open>accessory_counts\<close>, one entry per combination.
\<close>

definition saturate_counts :: "genome list \<Rightarrow> string list \<Rightarrow> nat \<Rightarrow> nat list \<times> nat list" where
  "saturate_counts genomes_list orthologs_universe group_size =
     (let counts = map (\<lambda>combination. count_orthologs combination orthologs_universe (0, 0))
                       (combinations genomes_list group_size)
      in (map fst counts, map snd counts))"

text \<open>
  The outer loop (lines 256 to 277). The summary \<^verbatim>\<open>gather_stats\<close> is a parameter here;
  the result dict is the list of its items in the order of insertion. Writing the
  table to the output file is not modelled.
\<close>

definition saturate ::
  "(nat list \<Rightarrow> 's) \<Rightarrow> genome list \<Rightarrow> string list \<Rightarrow> (nat \<times> 's \<times> 's) list" where
  "saturate stats genomes_list orthologs_universe =
     map (\<lambda>group_size. case saturate_counts genomes_list orthologs_universe group_size of
                     (core_counts, accessory_counts) \<Rightarrow>
                       (group_size, stats core_counts, stats accessory_counts))
         [1 ..< length genomes_list + 1]"

definition whitespace :: "char set" where
  "whitespace = {CHR '' '', CHR 0x09, CHR 0x0A, CHR 0x0B, CHR 0x0C, CHR 0x0D}"

definition strip :: "string \<Rightarrow> string" where
  "strip s = rev (dropWhile (\<lambda>c. c \<in> whitespace) (rev (dropWhile (\<lambda>c. c \<in> whitespace) s)))"

fun split :: "char \<Rightarrow> string \<Rightarrow> string list" where
  "split sep [] = [[]]"
| "split sep (c # cs) =
     (if c = sep then [] # split sep cs
      else (case split sep cs of [] \<Rightarrow> [[c]] | column # columns \<Rightarrow> (c # column) # columns))"

fun join :: "string \<Rightarrow> string list \<Rightarrow> string" where
  "join sep [] = []"
| "join sep [column] = column"
| "join sep (column # columns) = column @ sep @ join sep columns"

datatype pyfloat = NegInf | Fin rat | PosInf | NaN

fun float_lt :: "pyfloat \<Rightarrow> pyfloat \<Rightarrow> bool" where
  "float_lt (Fin x) (Fin y) = (x < y)"
| "float_lt NegInf (Fin y) = True"
| "float_lt NegInf PosInf = True"
| "float_lt (Fin x) PosInf = True"
| "float_lt a b = False"

record alignment =
  query_genome :: string
  sequence_id :: string
  hit_genome :: string
  hit_sequence_id :: string
  evalue :: string

type_synonym hit = "string \<times> string \<times> string"
type_synonym best_hits = "string \<rightharpoonup> (string \<rightharpoonup> (string \<rightharpoonup> hit))"

definition parse_line :: "string \<Rightarrow> error + alignment" where
  "parse_line line =
     (let columns = split (CHR 0x09) (strip line)
      in if length columns \<noteq> 12 then Inl (unpack_error 12 (length columns))
         else (case split CHR ''~'' (columns ! 0) of
                 [q_genome, q_sequence] \<Rightarrow>
                   (case split CHR ''~'' (columns ! 1) of
                      [s_genome, s_sequence] \<Rightarrow>
                        Inr \<lparr>query_genome = q_genome, sequence_id = q_sequence,
                             hit_genome = s_genome, hit_sequence_id = s_sequence,
                             evalue = columns ! 10\<rparr>
                    | parts \<Rightarrow> Inl (unpack_error 2 (length parts)))
               | parts \<Rightarrow> Inl (unpack_error 2 (length parts))))"

definition insert_hit ::
  "(string \<Rightarrow> pyfloat option) \<Rightarrow> best_hits \<Rightarrow> alignment \<Rightarrow> error + best_hits" where
  "insert_hit float result a =
     (let new = (hit_genome a, hit_sequence_id a, evalue a)
      in case result (query_genome a) of
           None \<Rightarrow>
             Inr (result(query_genome a \<mapsto> [sequence_id a \<mapsto> [hit_genome a \<mapsto> new]]))
         | Some by_sequence \<Rightarrow>
             (case by_sequence (sequence_id a) of
                None \<Rightarrow>
                  Inr (result(query_genome a \<mapsto>
                         by_sequence(sequence_id a \<mapsto> [hit_genome a \<mapsto> new])))
              | Some by_hit \<Rightarrow>
                  (case by_hit (hit_genome a) of
                     None \<Rightarrow>
                       Inr (result(query_genome a \<mapsto>
                              by_sequence(sequence_id a \<mapsto> by_hit(hit_genome a \<mapsto> new))))
                   | Some (p_genome, p_hit, p_eval) \<Rightarrow>
                       (case float (evalue a) of
                          None \<Rightarrow> Inl (ValueError_float (evalue a))
                        | Some e \<Rightarrow>
                            (case float p_eval of
                               None \<Rightarrow> Inl (ValueError_float p_eval)
                             | Some p \<Rightarrow>
                                 if float_lt e p
                                 then Inr (result(query_genome a \<mapsto>
                                        by_sequence(sequence_id a \<mapsto>
                                          by_hit(hit_genome a \<mapsto> new))))
                                 else Inr result)))))"

fun parse_blast_loop ::
  "(string \<Rightarrow> pyfloat option) \<Rightarrow> best_hits \<Rightarrow> string list \<Rightarrow> error + best_hits" where
  "parse_blast_loop float result [] = Inr result"
| "parse_blast_loop float result (line # rest) =
     (case parse_line line of
        Inl e \<Rightarrow> Inl e
      | Inr a \<Rightarrow>
          (case insert_hit float result a of
             Inl e \<Rightarrow> Inl e
           | Inr result' \<Rightarrow> parse_blast_loop float result' rest))"

definition parse_blast :: "(string \<Rightarrow> pyfloat option) \<Rightarrow> string list \<Rightarrow> error + best_hits" where
  "parse_blast float lines = parse_blast_loop float Map.empty lines"

definition float_ex :: "string \<Rightarrow> pyfloat option" where
  "float_ex s =
     (if s = ''0.5'' then Some (Fin (1/2))
      else if s = ''0.25'' then Some (Fin (1/4))
      else if s = ''2'' then Some (Fin 2)
      else if s = ''nan'' then Some NaN
      else None)"

definition best_hit :: "best_hits \<Rightarrow> string \<times> string \<times> string \<Rightarrow> hit option" where
  "best_hit result k =
     (case k of (q_genome, q_sequence, s_genome) \<Rightarrow>
        (case result q_genome of None \<Rightarrow> None
         | Some by_sequence \<Rightarrow>
             (case by_sequence q_sequence of None \<Rightarrow> None
              | Some by_hit \<Rightarrow> by_hit s_genome)))"

definition key :: "alignment \<Rightarrow> string \<times> string \<times> string" where
  "key a = (query_genome a, sequence_id a, hit_genome a)"

definition hit_of :: "alignment \<Rightarrow> hit" where
  "hit_of a = (hit_genome a, hit_sequence_id a, evalue a)"

definition lower :: "(string \<Rightarrow> pyfloat option) \<Rightarrow> string \<Rightarrow> string \<Rightarrow> bool" where
  "lower float e1 e2 =
     (case float e1 of None \<Rightarrow> False
      | Some a \<Rightarrow> (case float e2 of None \<Rightarrow> False | Some b \<Rightarrow> float_lt a b))"

definition numeric :: "(string \<Rightarrow> pyfloat option) \<Rightarrow> string \<Rightarrow> bool" where
  "numeric float e = (case float e of None \<Rightarrow> False | Some v \<Rightarrow> v \<noteq> NaN)"

definition first_lowest :: "(string \<Rightarrow> pyfloat option) \<Rightarrow> hit list \<Rightarrow> hit \<Rightarrow> bool" where
  "first_lowest float hits b =
     (\<exists>pre post. hits = pre @ b # post
        \<and> (\<forall>x \<in> set pre. lower float (snd (snd b)) (snd (snd x)))
        \<and> (\<forall>x \<in> set post. \<not> lower float (snd (snd x)) (snd (snd b))))"

definition alignments :: "string list \<Rightarrow> alignment list" where
  "alignments lines =
     concat (map (\<lambda>line. case parse_line line of Inl e \<Rightarrow> [] | Inr a \<Rightarrow> [a]) lines)"

definition hits_for :: "string \<times> string \<times> string \<Rightarrow> string list \<Rightarrow> hit list" where
  "hits_for k lines = map hit_of (filter (\<lambda>a. key a = k) (alignments lines))"

definition well_formed :: "(string \<Rightarrow> pyfloat option) \<Rightarrow> string \<Rightarrow> bool" where
  "well_formed float line =
     (case parse_line line of Inl e \<Rightarrow> False | Inr a \<Rightarrow> numeric float (evalue a))"

definition retained :: "(string \<Rightarrow> pyfloat option) \<Rightarrow> best_hits \<Rightarrow> string list \<Rightarrow> bool" where
  "retained float result lines =
     (\<forall>k. if hits_for k lines = [] then best_hit result k = None
          else (\<exists>b. best_hit result k = Some b \<and> first_lowest float (hits_for k lines) b))"

text \<open>The entries of the table come from records of the input.\<close>

definition from_input :: "best_hits \<Rightarrow> string list \<Rightarrow> bool" where
  "from_input result lines =
     (\<forall>k h. best_hit result k = Some h \<longrightarrow>
        (\<exists>a \<in> set (alignments lines). key a = k \<and> hit_of a = h))"

text \<open>What an error of \<^verbatim>\<open>_parse_blast\<close> says about the input.\<close>

definition raised_by :: "(string \<Rightarrow> pyfloat option) \<Rightarrow> string list \<Rightarrow> error \<Rightarrow> bool" where
  "raised_by float lines e =
     (((e = ValueError_too_many \<or> (\<exists>n. e = ValueError_need_more n))
         \<and> (\<exists>line \<in> set lines. parse_line line = Inl e))
      \<or> (\<exists>s. e = ValueError_float s \<and> float s = None
            \<and> s \<in> evalue ` set (alignments lines)
            \<and> \<not> distinct (map key (alignments lines))))"

text \<open>
  A line of tabular alignment output (twelve tab-separated columns and a newline) with
  the given query id, subject id and e-value; the other nine columns are fixed.
\<close>

definition blast_line :: "string \<Rightarrow> string \<Rightarrow> string \<Rightarrow> string" where
  "blast_line qseqid sseqid e =
     join [CHR 0x09] [qseqid, sseqid, ''98.1'', ''100'', ''2'', ''0'', ''1'', ''100'',
                      ''1'', ''100'', e, ''200''] @ [CHR 0x0A]"

section \<open>\<^verbatim>\<open>_metadata_parser\<close>\<close>

text \<open>
  The input is the list of the lines of the metadata file. A line is stripped and split
  at tabs into exactly two values (anything else is the unpacking \<^verbatim>\<open>ValueError\<close>). The
  state of the loop is the dict \<^verbatim>\<open>metadata\<close> (group label to set of genome names) and the
  set \<^verbatim>\<open>seen\<close>.
\<close>

type_synonym metadata = "string \<rightharpoonup> string set"

definition parse_metadata_line :: "string \<Rightarrow> error + (string \<times> string)" where
  "parse_metadata_line line =
     (case split (CHR 0x09) (strip line) of
        [genome, grp] \<Rightarrow> Inr (genome, grp)
      | parts \<Rightarrow> Inl (unpack_error 2 (length parts)))"

fun metadata_loop ::
  "metadata \<times> string set \<Rightarrow> string list \<Rightarrow> error + (metadata \<times> string set)" where
  "metadata_loop (metadata, seen) [] = Inr (metadata, seen)"
| "metadata_loop (metadata, seen) (line # rest) =
     (case parse_metadata_line line of
        Inl e \<Rightarrow> Inl e
      | Inr (genome, grp) \<Rightarrow>
          if genome \<in> seen then Inl (DuplicateEntry genome)
          else metadata_loop
                 (case metadata grp of
                    Some members \<Rightarrow> metadata(grp \<mapsto> insert genome members)
                  | None \<Rightarrow> metadata(grp \<mapsto> {genome}),
                  insert genome seen)
                 rest)"

definition metadata_parser :: "string list \<Rightarrow> error + metadata" where
  "metadata_parser lines =
     (case metadata_loop (Map.empty, {}) lines of
        Inl e \<Rightarrow> Inl e
      | Inr (metadata, seen) \<Rightarrow> Inr metadata)"

text \<open>
  For the statements: the (genome, group) pairs of the lines that parse, the grouping of
  such pairs by label, and a genome name that occurs a second time.
\<close>

definition entries :: "string list \<Rightarrow> (string \<times> string) list" where
  "entries lines =
     concat (map (\<lambda>line. case parse_metadata_line line of Inl e \<Rightarrow> [] | Inr x \<Rightarrow> [x]) lines)"

definition grouped :: "(string \<times> string) list \<Rightarrow> metadata" where
  "grouped es = (\<lambda>grp. if grp \<in> snd ` set es then Some {g. (g, grp) \<in> set es} else None)"

definition repeated :: "(string \<times> string) list \<Rightarrow> string \<Rightarrow> bool" where
  "repeated es g = (\<exists>pre post grp. es = pre @ (g, grp) # post \<and> g \<in> fst ` set pre)"

section \<open>\<^verbatim>\<open>_pan_genome\<close>\<close>

subsection \<open>Python floats\<close>

text \<open>
  A Python float is an IEEE 754 double: a value \<open>m * 2 ^ k\<close> with an integer \<open>m\<close> of at most
  53 bits. It is modelled by the rational number it denotes. Every operation computes the
  exact result and rounds it to the nearest double, a tie going to the even significand:
  that is \<open>double\<close>. The exponent range of the doubles is not modelled: the numbers of
  \<^verbatim>\<open>_pan_genome\<close> are quotients and products of list lengths and stay far inside it.

  \<open>bitlen n\<close> is the number of binary digits of \<open>n\<close>, and \<open>expo x\<close> the exponent \<open>e\<close> with
  \<open>2 ^ e \<le> \<bar>x\<bar> < 2 ^ (e + 1)\<close>.
\<close>

fun bitlen :: "nat \<Rightarrow> nat" where
  "bitlen n = (if n = 0 then 0 else Suc (bitlen (n div 2)))"

declare bitlen.simps [simp del]

definition expo :: "rat \<Rightarrow> int" where
  "expo x =
     (if 1 \<le> \<bar>x\<bar> then int (bitlen (nat \<lfloor>\<bar>x\<bar>\<rfloor>)) - 1
      else - int (bitlen (nat (\<lceil>1 / \<bar>x\<bar>\<rceil> - 1))))"

definition round_half_even :: "rat \<Rightarrow> int" where
  "round_half_even y =
     (let n = \<lfloor>y\<rfloor>; r = y - of_int n
      in if r < 1 / 2 then n
         else if 1 / 2 < r then n + 1
         else if even n then n else n + 1)"

definition double :: "rat \<Rightarrow> rat" where
  "double x =
     (if x = 0 then 0
      else let ulp = 2 powi (expo x - 52)
           in of_int (round_half_even (x / ulp)) * ulp)"

text \<open>
  \<^verbatim>\<open>float(n)\<close> of an integer, the division \<^verbatim>\<open>a / b\<close> of two floats (a zero divisor is a
  \<^verbatim>\<open>ZeroDivisionError\<close>) and their product \<^verbatim>\<open>a * b\<close>.
\<close>

definition py_float :: "nat \<Rightarrow> rat" where
  "py_float n = double (of_nat n)"

definition float_div :: "rat \<Rightarrow> rat \<Rightarrow> error + rat" where
  "float_div a b = (if b = 0 then Inl ZeroDivisionError else Inr (double (a / b)))"

definition float_mul :: "rat \<Rightarrow> rat \<Rightarrow> rat" where
  "float_mul a b = double (a * b)"

text \<open>
  \<^verbatim>\<open>round(x, 2)\<close> of Python 2.7 writes the exact value of the double \<open>x\<close> in decimal with
  two places, a tie going away from zero, and reads the decimal back as a double.
\<close>

definition round_half_away :: "rat \<Rightarrow> int" where
  "round_half_away y = (if 0 \<le> y then \<lfloor>y + 1 / 2\<rfloor> else - \<lfloor>- y + 1 / 2\<rfloor>)"

definition py_round2 :: "rat \<Rightarrow> rat" where
  "py_round2 x = double (of_int (round_half_away (x * 100)) / 100)"

subsection \<open>The aggregation\<close>

text \<open>
  \<^verbatim>\<open>[genome_dict[genome] for genome in genomes]\<close>: a missing name is a \<^verbatim>\<open>KeyError\<close>.
  The set of names of a group is the list of its elements in iteration order.
\<close>

fun lookup_genomes :: "(string \<rightharpoonup> genome) \<Rightarrow> string list \<Rightarrow> error + genome list" where
  "lookup_genomes genome_dict [] = Inr []"
| "lookup_genomes genome_dict (g # rest) =
     (case genome_dict g of
        None \<Rightarrow> Inl (KeyError g)
      | Some x \<Rightarrow>
          (case lookup_genomes genome_dict rest of
             Inl e \<Rightarrow> Inl e
           | Inr xs \<Rightarrow> Inr (x # xs)))"

text \<open>
  The body of the loop of \<^verbatim>\<open>_pan_genome\<close> (lines 178 to 183) for one group.
  \<^verbatim>\<open>set.intersection\<close> of no set at all is a \<^verbatim>\<open>TypeError\<close>; a mean of zero sequences
  is a division by zero on line 182.
\<close>

definition pan_genome_group ::
  "(string \<rightharpoonup> genome) \<Rightarrow> string list \<Rightarrow> error + (nat \<times> rat)" where
  "pan_genome_group genome_dict genomes =
     (case lookup_genomes genome_dict genomes of
        Inl e \<Rightarrow> Inl e
      | Inr group_genomes \<Rightarrow>
          (case map clusters group_genomes of
             [] \<Rightarrow> Inl TypeError
           | first # others \<Rightarrow>
               (let group_core_genome_size = card (fold (\<inter>) others first);
                    group_genome_lengths = map (\<lambda>x. length (sequences x)) group_genomes
                in case float_div (py_float (sum_list group_genome_lengths))
                                  (py_float (length group_genome_lengths)) of
                     Inl e \<Rightarrow> Inl e
                   | Inr group_genome_mean \<Rightarrow>
                       (case float_div (py_float group_core_genome_size) group_genome_mean of
                          Inl e \<Rightarrow> Inl e
                        | Inr ratio \<Rightarrow>
                            Inr (group_core_genome_size,
                                 py_round2 (float_mul ratio 100))))))"

text \<open>
  The loop over \<^verbatim>\<open>metadata.items()\<close>; the result dict is the list of its items.
\<close>

fun pan_genome ::
  "(string \<rightharpoonup> genome) \<Rightarrow> (string \<times> string list) list
     \<Rightarrow> error + (string \<times> nat \<times> rat) list" where
  "pan_genome genome_dict [] = Inr []"
| "pan_genome genome_dict ((grp, genomes) # rest) =
     (case pan_genome_group genome_dict genomes of
        Inl e \<Rightarrow> Inl e
      | Inr stats \<Rightarrow>
          (case pan_genome genome_dict rest of
             Inl e \<Rightarrow> Inl e
           | Inr result \<Rightarrow> Inr ((grp, stats) # result)))"

section \<open>\<^verbatim>\<open>_synteny\<close>\<close>

text \<open>
  \<^verbatim>\<open>calc_synt\<close> is a stub (\<^verbatim>\<open>pass\<close>): it returns \<^verbatim>\<open>None\<close>. \<^verbatim>\<open>_synteny\<close> returns nothing
  either, so the model returns the local variables of the function as they stand at the
  end: they live in one scope for the whole run, and a variable not assigned yet is
  \<open>None\<close> in the record. The best-hit table, which the code gets from the external
  alignment run, is an argument.
\<close>


datatype pyval = PyNone | PyInt int

definition calc_synt :: "nat \<Rightarrow> (string \<rightharpoonup> hit) \<Rightarrow> pyval" where
  "calc_synt tot proteins = PyNone"

record locals =
  upstream_id :: "string option"
  downstream_id :: "string option"
  up_best_hits :: "(string \<rightharpoonup> hit) option"
  down_best_hits :: "(string \<rightharpoonup> hit) option"
  upstream_synt :: "pyval option"
  downstream_synt :: "pyval option"

definition unbound :: locals where
  "unbound = \<lparr>upstream_id = None, downstream_id = None, up_best_hits = None,
              down_best_hits = None, upstream_synt = None, downstream_synt = None\<rparr>"

text \<open>
  Lines 141 to 149. Line 144 reads \<^verbatim>\<open>best_hits[genome.name][downstream_id]\<close>: the name
  \<^verbatim>\<open>downstream_id\<close>, not \<^verbatim>\<open>upstream_id\<close>.
\<close>

definition synteny_upstream ::
  "best_hits \<Rightarrow> nat \<Rightarrow> genome \<Rightarrow> int \<Rightarrow> locals \<Rightarrow> error + locals" where
  "synteny_upstream best_hits tot_genomes g position l =
     (let upstream = position - 1
      in case map_of (protein_ordered_dict g) upstream of
           None \<Rightarrow> Inr (l\<lparr>upstream_synt := Some (PyInt 1)\<rparr>)
         | Some uid \<Rightarrow>
             (case best_hits (name g) of
                None \<Rightarrow> Inl (KeyError (name g))
              | Some by_sequence \<Rightarrow>
                  if by_sequence uid \<noteq> None
                  then (case downstream_id l of
                          None \<Rightarrow> Inl (UnboundLocalError ''downstream_id'')
                        | Some did \<Rightarrow>
                            (case by_sequence did of
                               None \<Rightarrow> Inl (KeyError did)
                             | Some hits \<Rightarrow>
                                 Inr (l\<lparr>upstream_id := Some uid, up_best_hits := Some hits,
                                        upstream_synt := Some (calc_synt tot_genomes hits)\<rparr>)))
                  else Inr (l\<lparr>upstream_id := Some uid, upstream_synt := Some (PyInt 1)\<rparr>)))"

text \<open>Lines 150 to 159.\<close>

definition synteny_downstream ::
  "best_hits \<Rightarrow> nat \<Rightarrow> genome \<Rightarrow> int \<Rightarrow> locals \<Rightarrow> error + locals" where
  "synteny_downstream best_hits tot_genomes g position l =
     (let downstream = position + 1
      in case map_of (protein_ordered_dict g) downstream of
           None \<Rightarrow> Inr (l\<lparr>downstream_synt := Some (PyInt 1)\<rparr>)
         | Some did \<Rightarrow>
             (case best_hits (name g) of
                None \<Rightarrow> Inl (KeyError (name g))
              | Some by_sequence \<Rightarrow>
                  (case by_sequence did of
                     Some hits \<Rightarrow>
                       Inr (l\<lparr>downstream_id := Some did, down_best_hits := Some hits,
                              downstream_synt := Some (calc_synt tot_genomes hits)\<rparr>)
                   | None \<Rightarrow>
                       Inr (l\<lparr>downstream_id := Some did, downstream_synt := Some (PyInt 1)\<rparr>))))"

text \<open>The loop over the items of the protein order map, and the loop over the genomes.\<close>

fun synteny_positions ::
  "best_hits \<Rightarrow> nat \<Rightarrow> genome \<Rightarrow> locals \<Rightarrow> (int \<times> string) list \<Rightarrow> error + locals" where
  "synteny_positions best_hits tot_genomes g l [] = Inr l"
| "synteny_positions best_hits tot_genomes g l ((position, sequence_name) # rest) =
     (case synteny_upstream best_hits tot_genomes g position l of
        Inl e \<Rightarrow> Inl e
      | Inr l1 \<Rightarrow>
          (case synteny_downstream best_hits tot_genomes g position l1 of
             Inl e \<Rightarrow> Inl e
           | Inr l2 \<Rightarrow> synteny_positions best_hits tot_genomes g l2 rest))"

fun synteny_genomes ::
  "best_hits \<Rightarrow> nat \<Rightarrow> locals \<Rightarrow> genome list \<Rightarrow> error + locals" where
  "synteny_genomes best_hits tot_genomes l [] = Inr l"
| "synteny_genomes best_hits tot_genomes l (g # rest) =
     (case synteny_positions best_hits tot_genomes g l (protein_ordered_dict g) of
        Inl e \<Rightarrow> Inl e
      | Inr l' \<Rightarrow> synteny_genomes best_hits tot_genomes l' rest)"

definition synteny :: "best_hits \<Rightarrow> genome list \<Rightarrow> error + locals" where
  "synteny best_hits genome_list =
     synteny_genomes best_hits (length genome_list) unbound genome_list"

section \<open>\<^verbatim>\<open>run_mannwhitneyu\<close>\<close>

text \<open>
  \<^verbatim>\<open>scipy.stats.mannwhitneyu\<close> is a library routine: it is the parameter
  \<open>mannwhitneyu\<close>, which returns a result or raises. The dict \<^verbatim>\<open>feature_list\<close> is the list
  of its items (distinct labels), \<^verbatim>\<open>combinations(feature_list.keys(), 2)\<close> the pairs of
  labels in key order, and the dict \<^verbatim>\<open>test_results\<close> a map from pairs of labels.
\<close>


definition label_pairs :: "string list \<Rightarrow> (string \<times> string) list" where
  "label_pairs labels = map (\<lambda>combination. (combination ! 0, combination ! 1))
                            (combinations labels 2)"

fun test_loop ::
  "(real list \<Rightarrow> real list \<Rightarrow> error + 'r) \<Rightarrow> (string \<times> real list) list
     \<Rightarrow> (string \<times> string \<rightharpoonup> 'r) \<Rightarrow> (string \<times> string) list
     \<Rightarrow> error + (string \<times> string \<rightharpoonup> 'r)" where
  "test_loop mannwhitneyu feature_list test_results [] = Inr test_results"
| "test_loop mannwhitneyu feature_list test_results ((label_1, label_2) # rest) =
     (case map_of feature_list label_1 of
        None \<Rightarrow> Inl (KeyError label_1)
      | Some group_1 \<Rightarrow>
          (case map_of feature_list label_2 of
             None \<Rightarrow> Inl (KeyError label_2)
           | Some group_2 \<Rightarrow>
               (case mannwhitneyu group_1 group_2 of
                  Inl e \<Rightarrow> Inl e
                | Inr t \<Rightarrow>
                    test_loop mannwhitneyu feature_list
                      (test_results((label_1, label_2) \<mapsto> t)) rest)))"

definition run_mannwhitneyu ::
  "(real list \<Rightarrow> real list \<Rightarrow> error + 'r) \<Rightarrow> string \<Rightarrow> (string \<times> real list) list
     \<Rightarrow> error + (string \<times> string \<rightharpoonup> 'r)" where
  "run_mannwhitneyu mannwhitneyu feature feature_list =
     test_loop mannwhitneyu feature_list Map.empty (label_pairs (map fst feature_list))"

text \<open>
  For the examples: a routine that accepts samples of any size, the empty one included,
  and returns the two sample sizes.
\<close>

definition sample_sizes :: "real list \<Rightarrow> real list \<Rightarrow> error + nat \<times> nat" where
  "sample_sizes x y = Inr (length x, length y)"

text \<open>
  And a routine that raises when all the numbers of the two samples are identical, as the
  library routine does, so in particular on a sample paired with itself whenever its
  values are all the same.
\<close>

definition identical_rejected :: "real list \<Rightarrow> real list \<Rightarrow> error + nat \<times> nat" where
  "identical_rejected x y =
     (if length (remdups (x @ y)) \<le> 1
      then Inl (LibraryError ''All numbers are identical in mannwhitneyu'')
      else Inr (length x, length y))"

section \<open>\<^verbatim>\<open>gather_stats\<close>\<close>

text \<open>
  The class defines \<^verbatim>\<open>gather_stats\<close> twice (lines 186 and 240); the second definition,
  the one with the standard deviation, replaces the first and is the method every caller
  gets. The numpy routines are modelled on real numbers, with exact arithmetic:
  \<^verbatim>\<open>mean\<close>, \<^verbatim>\<open>median\<close> (the middle of the sorted values, or the mean of the two middle
  ones), \<^verbatim>\<open>std\<close> (the population standard deviation) and \<^verbatim>\<open>percentile\<close> with linear
  interpolation between the two nearest ranks.
\<close>


definition np_mean :: "real list \<Rightarrow> real" where
  "np_mean xs = sum_list xs / real (length xs)"

definition np_median :: "real list \<Rightarrow> real" where
  "np_median xs =
     (let s = sort xs; n = length s
      in if odd n then s ! (n div 2) else (s ! (n div 2 - 1) + s ! (n div 2)) / 2)"

definition np_std :: "real list \<Rightarrow> real" where
  "np_std xs = sqrt (np_mean (map (\<lambda>x. (x - np_mean xs)\<^sup>2) xs))"

definition np_percentile :: "real list \<Rightarrow> real \<Rightarrow> real" where
  "np_percentile xs q =
     (let s = sort xs; n = length s;
          index = q / 100 * real (n - 1);
          below = nat \<lfloor>index\<rfloor>;
          above = min (below + 1) (n - 1);
          weight = index - real below
      in s ! below * (1 - weight) + s ! above * weight)"

text \<open>
  On an empty list the built-in \<^verbatim>\<open>min\<close> raises a \<^verbatim>\<open>ValueError\<close> (the numpy calls before
  it only warn).
\<close>

definition gather_stats :: "real list \<Rightarrow> error + real list" where
  "gather_stats number_list =
     (if number_list = [] then Inl ValueError_empty
      else (let mean = np_mean number_list;
                median = np_median number_list;
                std = np_std number_list;
                minimum = Min (set number_list);
                maximum = Max (set number_list);
                p90 = np_percentile number_list 90;
                p10 = np_percentile number_list 10
            in Inr [mean, median, std, minimum, maximum, p90, p10]))"

section \<open>Properties of \<^verbatim>\<open>saturate\<close>\<close>

lemma count_orthologs_sum:
  "fst (count_orthologs c us (a, b)) + snd (count_orthologs c us (a, b)) = a + b + length us"
  by (induction us arbitrary: a b) (simp_all add: Let_def)

lemma count_orthologs_core:
  "fst (count_orthologs [g] us (a, b)) = a + length (filter (\<lambda>u. u \<in> orthologs g) us)"
  by (induction us arbitrary: a b) (simp_all add: Let_def)

lemma combinations_one: "combinations xs (Suc 0) = map (\<lambda>x. [x]) xs"
  by (induction xs) simp_all

lemma length_filter_mem:
  assumes "distinct us" and "A \<subseteq> set us"
  shows "length (filter (\<lambda>u. u \<in> A) us) = card A"
proof -
  have "length (filter (\<lambda>u. u \<in> A) us) = card (set (filter (\<lambda>u. u \<in> A) us))"
    using assms(1) distinct_card [of "filter (\<lambda>u. u \<in> A) us"] by simp
  also have "set (filter (\<lambda>u. u \<in> A) us) = A"
    using assms(2) by auto
  finally show ?thesis .
qed

text \<open>
  Claim C2. For a non-empty genome list, every subset size \<open>k\<close> from 1 to the length of
  the list and every \<open>k\<close>-element combination that \<^verbatim>\<open>saturate\<close> enumerates, the core count
  plus the accessory count of that combination is the size of the ortholog universe
  passed in. The second part says the same of the two lists \<^verbatim>\<open>core_counts\<close> and
  \<^verbatim>\<open>accessory_counts\<close> that \<^verbatim>\<open>saturate\<close> hands to \<^verbatim>\<open>gather_stats\<close>.
\<close>

theorem saturate_core_plus_accessory:
  assumes "genomes_list \<noteq> []" and "1 \<le> k" and "k \<le> length genomes_list"
  shows "(\<forall>combination \<in> set (combinations genomes_list k).
            fst (count_orthologs combination orthologs_universe (0, 0))
              + snd (count_orthologs combination orthologs_universe (0, 0))
            = length orthologs_universe)
       \<and> (case saturate_counts genomes_list orthologs_universe k of
            (core_counts, accessory_counts) \<Rightarrow>
              length core_counts = length (combinations genomes_list k)
            \<and> length accessory_counts = length (combinations genomes_list k)
            \<and> (\<forall>i < length (combinations genomes_list k).
                   core_counts ! i + accessory_counts ! i = length orthologs_universe))"
  by (simp add: saturate_counts_def Let_def count_orthologs_sum)

theorem saturate_core_plus_accessory_witness:
  "[\<lparr>name = ''g1'', sequences = [], clusters = {}, orthologs = {''a'', ''b''},
       protein_ordered_dict = []\<rparr>,
    \<lparr>name = ''g2'', sequences = [], clusters = {}, orthologs = {''b'', ''c''},
       protein_ordered_dict = []\<rparr>] \<noteq> []
   \<and> (1::nat) \<le> 2 \<and> (2::nat) \<le> length
     [\<lparr>name = ''g1'', sequences = [], clusters = {}, orthologs = {''a'', ''b''},
       protein_ordered_dict = []\<rparr>,
    \<lparr>name = ''g2'', sequences = [], clusters = {}, orthologs = {''b'', ''c''},
       protein_ordered_dict = []\<rparr>]
   \<and> saturate_counts
     [\<lparr>name = ''g1'', sequences = [], clusters = {}, orthologs = {''a'', ''b''},
       protein_ordered_dict = []\<rparr>,
      \<lparr>name = ''g2'', sequences = [], clusters = {}, orthologs = {''b'', ''c''},
       protein_ordered_dict = []\<rparr>] [''a'', ''b'', ''c''] 2 = ([1], [2])"
  using saturate_core_plus_accessory [of
     "[\<lparr>name = ''g1'', sequences = [], clusters = {}, orthologs = {''a'', ''b''},
       protein_ordered_dict = []\<rparr>,
      \<lparr>name = ''g2'', sequences = [], clusters = {}, orthologs = {''b'', ''c''},
       protein_ordered_dict = []\<rparr>]" 2 "[''a'', ''b'', ''c'']"]
  by (simp add: saturate_counts_def Let_def numeral_2_eq_2)

text \<open>
  Claim C3. When the ortholog set of every genome of the list is a subset of the
  ortholog universe (a set, so its enumeration has no repetition), every combination of
  size 1 is a single genome of the list, its core count is that genome's own ortholog
  count, and its accessory count is the size of the universe minus that count.
\<close>

theorem saturate_singleton:
  assumes "distinct orthologs_universe"
    and "\<forall>genome \<in> set genomes_list. orthologs genome \<subseteq> set orthologs_universe"
  shows "\<forall>combination \<in> set (combinations genomes_list 1).
           \<exists>genome \<in> set genomes_list. combination = [genome]
             \<and> count_orthologs combination orthologs_universe (0, 0)
               = (card (orthologs genome), length orthologs_universe - card (orthologs genome))"
proof
  fix combination
  assume "combination \<in> set (combinations genomes_list 1)"
  then obtain g where g: "g \<in> set genomes_list" "combination = [g]"
    by (auto simp: combinations_one)
  have core: "fst (count_orthologs [g] orthologs_universe (0, 0)) = card (orthologs g)"
    using assms g(1) by (simp add: count_orthologs_core length_filter_mem)
  have "fst (count_orthologs [g] orthologs_universe (0, 0))
          + snd (count_orthologs [g] orthologs_universe (0, 0)) = length orthologs_universe"
    by (simp add: count_orthologs_sum)
  with core have "snd (count_orthologs [g] orthologs_universe (0, 0))
      = length orthologs_universe - card (orthologs g)" by simp
  with core have "count_orthologs [g] orthologs_universe (0, 0)
      = (card (orthologs g), length orthologs_universe - card (orthologs g))"
    by (metis prod.collapse)
  with g show "\<exists>genome \<in> set genomes_list. combination = [genome]
             \<and> count_orthologs combination orthologs_universe (0, 0)
               = (card (orthologs genome), length orthologs_universe - card (orthologs genome))"
    by blast
qed

theorem saturate_singleton_witness:
  "distinct [''a'', ''b'', ''c'']
   \<and> count_orthologs
       [\<lparr>name = ''g1'', sequences = [], clusters = {}, orthologs = {''a'', ''b''},
         protein_ordered_dict = []\<rparr>] [''a'', ''b'', ''c''] (0, 0) = (2, 1)"
  using saturate_singleton [of "[''a'', ''b'', ''c'']"
       "[\<lparr>name = ''g1'', sequences = [], clusters = {}, orthologs = {''a'', ''b''},
         protein_ordered_dict = []\<rparr>]"]
  by (simp add: Let_def)

lemma best_hit_insert_new:
  assumes "best_hit result (key a) = None"
  shows "\<exists>r'. insert_hit float result a = Inr r'
           \<and> best_hit r' (key a) = Some (hit_of a)
           \<and> (\<forall>k. k \<noteq> key a \<longrightarrow> best_hit r' k = best_hit result k)"
  using assms
  by (auto simp: insert_hit_def best_hit_def key_def hit_of_def Let_def split: option.splits)

lemma best_hit_insert_replace:
  assumes "best_hit result (key a) = Some old"
    and "lower float (evalue a) (snd (snd old))"
  shows "\<exists>r'. insert_hit float result a = Inr r'
           \<and> best_hit r' (key a) = Some (hit_of a)
           \<and> (\<forall>k. k \<noteq> key a \<longrightarrow> best_hit r' k = best_hit result k)"
  using assms
  by (auto simp: insert_hit_def best_hit_def key_def hit_of_def lower_def Let_def
           split: option.splits)

lemma best_hit_insert_keep:
  assumes "best_hit result (key a) = Some old"
    and "float (evalue a) \<noteq> None" and "float (snd (snd old)) \<noteq> None"
    and "\<not> lower float (evalue a) (snd (snd old))"
  shows "insert_hit float result a = Inr result"
  using assms
  by (auto simp: insert_hit_def best_hit_def key_def hit_of_def lower_def Let_def
           split: option.splits)

lemma insert_hit_error:
  assumes "insert_hit float result a = Inl e"
  shows "\<exists>old. best_hit result (key a) = Some old
           \<and> (float (evalue a) = None \<or> float (snd (snd old)) = None)"
  using assms
  by (auto simp: insert_hit_def best_hit_def key_def Let_def
           split: option.splits if_splits)

lemma float_lt_trans: "float_lt a b \<Longrightarrow> float_lt b c \<Longrightarrow> float_lt a c"
  by (cases a; cases b; cases c) simp_all

lemma float_lt_total: "b \<noteq> NaN \<Longrightarrow> c \<noteq> NaN \<Longrightarrow> float_lt a b \<Longrightarrow> \<not> float_lt c b \<Longrightarrow> float_lt a c"
  by (cases a; cases b; cases c) simp_all

lemma lower_trans: "lower float a b \<Longrightarrow> lower float b c \<Longrightarrow> lower float a c"
  by (auto simp: lower_def split: option.splits intro: float_lt_trans)

lemma lower_total:
  "numeric float b \<Longrightarrow> numeric float c \<Longrightarrow> lower float a b \<Longrightarrow> \<not> lower float c b
     \<Longrightarrow> lower float a c"
  by (auto simp: lower_def numeric_def split: option.splits intro: float_lt_total)

lemma numeric_Some: "numeric float e \<Longrightarrow> float e \<noteq> None"
  by (auto simp: numeric_def split: option.splits)

lemma retained_None:
  "retained float result lines \<Longrightarrow> best_hit result k = None \<Longrightarrow> hits_for k lines = []"
  unfolding retained_def by (erule allE [of _ k]) (auto split: if_splits)

lemma retained_Some:
  "retained float result lines \<Longrightarrow> best_hit result k = Some b
     \<Longrightarrow> hits_for k lines \<noteq> [] \<and> first_lowest float (hits_for k lines) b"
  unfolding retained_def by (erule allE [of _ k]) (auto split: if_splits)


lemma parse_blast_loop_append:
  "parse_blast_loop float result (xs @ ys) =
     (case parse_blast_loop float result xs of
        Inl e \<Rightarrow> Inl e | Inr result' \<Rightarrow> parse_blast_loop float result' ys)"
  by (induction xs arbitrary: result) (auto split: sum.splits)

lemma alignments_append: "alignments (xs @ ys) = alignments xs @ alignments ys"
  by (simp add: alignments_def)

lemma hits_for_snoc:
  "parse_line line = Inr a \<Longrightarrow>
   hits_for k (lines @ [line]) = (if key a = k then hits_for k lines @ [hit_of a] else hits_for k lines)"
  by (simp add: hits_for_def alignments_def)

lemma retained_other:
  assumes "retained float result lines" and "parse_line line = Inr a" and "k \<noteq> key a"
    and "best_hit result' k = best_hit result k"
  shows "if hits_for k (lines @ [line]) = [] then best_hit result' k = None
         else (\<exists>b. best_hit result' k = Some b
                 \<and> first_lowest float (hits_for k (lines @ [line])) b)"
proof -
  from assms(2,3) have "hits_for k (lines @ [line]) = hits_for k lines"
    by (auto simp: hits_for_snoc)
  moreover from assms(1) have "if hits_for k lines = [] then best_hit result k = None
      else (\<exists>b. best_hit result k = Some b \<and> first_lowest float (hits_for k lines) b)"
    unfolding retained_def by (rule spec)
  ultimately show ?thesis
    using assms(4) by (simp del: split_paired_Ex)
qed

lemma hits_for_numeric:
  assumes "\<forall>line \<in> set lines. well_formed float line" and "x \<in> set (hits_for k lines)"
  shows "numeric float (snd (snd x))"
proof -
  from assms(2) obtain a where a: "a \<in> set (alignments lines)" "x = hit_of a"
    by (auto simp: hits_for_def)
  then obtain line where "line \<in> set lines" "parse_line line = Inr a"
    by (auto simp: alignments_def split: sum.splits)
  with assms(1) have "numeric float (evalue a)"
    by (fastforce simp: well_formed_def)
  with a show ?thesis by (simp add: hit_of_def)
qed

lemma first_lowest_mem: "first_lowest float hits b \<Longrightarrow> b \<in> set hits"
  by (auto simp: first_lowest_def)

lemma first_lowest_least:
  "first_lowest float hits b \<Longrightarrow> x \<in> set hits \<Longrightarrow> \<not> lower float (snd (snd x)) (snd (snd b))"
proof -
  assume fl: "first_lowest float hits b" and x: "x \<in> set hits"
  from fl obtain pre post where h: "hits = pre @ b # post"
    and pre: "\<forall>x \<in> set pre. lower float (snd (snd b)) (snd (snd x))"
    and post: "\<forall>x \<in> set post. \<not> lower float (snd (snd x)) (snd (snd b))"
    by (auto simp: first_lowest_def)
  have irrefl: "\<not> lower float e e" for e
    by (cases "float e"; simp add: lower_def; cases "the (float e)"; simp)
  have asym: "lower float e1 e2 \<Longrightarrow> \<not> lower float e2 e1" for e1 e2
    using lower_trans irrefl by blast
  from x h consider "x \<in> set pre" | "x = b" | "x \<in> set post" by auto
  then show ?thesis
    using pre post irrefl asym by cases auto
qed

lemma retained_step:
  assumes wf: "\<forall>l \<in> set lines. well_formed float l" and wfl: "well_formed float line"
    and pl: "parse_line line = Inr a"
    and inv: "retained float result lines"
  shows "\<exists>result'. insert_hit float result a = Inr result'
            \<and> retained float result' (lines @ [line])"
proof (cases "best_hit result (key a)")
  case None
  from best_hit_insert_new [OF None, of float] obtain r' where
    r': "insert_hit float result a = Inr r'"
    and rk: "best_hit r' (key a) = Some (hit_of a)"
    and rother: "\<And>k. k \<noteq> key a \<Longrightarrow> best_hit r' k = best_hit result k"
    by blast
  from None inv have empty: "hits_for (key a) lines = []"
    by (rule retained_None [rotated])
  have "retained float r' (lines @ [line])"
    unfolding retained_def
  proof
    fix k
    show "if hits_for k (lines @ [line]) = [] then best_hit r' k = None
          else (\<exists>b. best_hit r' k = Some b \<and> first_lowest float (hits_for k (lines @ [line])) b)"
    proof (cases "k = key a")
      case True
      have "first_lowest float [hit_of a] (hit_of a)"
        unfolding first_lowest_def by (rule exI [of _ "[]"], rule exI [of _ "[]"]) simp
      with True rk empty pl show ?thesis by (simp add: hits_for_snoc)
    next
      case False
      then show ?thesis
        using retained_other [OF inv pl, of k r'] rother by simp
    qed
  qed
  with r' show ?thesis by blast
next
  case (Some old)
  with inv have nonempty: "hits_for (key a) lines \<noteq> []"
    and fl: "first_lowest float (hits_for (key a) lines) old"
    using retained_Some by blast+
  from fl obtain pre post where h: "hits_for (key a) lines = pre @ old # post"
    and pre: "\<forall>x \<in> set pre. lower float (snd (snd old)) (snd (snd x))"
    and post: "\<forall>x \<in> set post. \<not> lower float (snd (snd x)) (snd (snd old))"
    by (auto simp: first_lowest_def)
  have num: "numeric float (snd (snd x))" if "x \<in> set (hits_for (key a) lines)" for x
    using hits_for_numeric [OF wf that] .
  have num_old: "numeric float (snd (snd old))"
    using num [of old] h by simp
  have num_a: "numeric float (evalue a)"
    using wfl pl by (simp add: well_formed_def)
  show ?thesis
  proof (cases "lower float (evalue a) (snd (snd old))")
    case True
    from best_hit_insert_replace [OF Some True] obtain r' where
      r': "insert_hit float result a = Inr r'"
      and rk: "best_hit r' (key a) = Some (hit_of a)"
      and rother: "\<And>k. k \<noteq> key a \<Longrightarrow> best_hit r' k = best_hit result k"
      by blast
    have all: "lower float (evalue a) (snd (snd x))" if "x \<in> set (pre @ old # post)" for x
    proof -
      from that consider "x \<in> set pre" | "x = old" | "x \<in> set post" by auto
      then show ?thesis
      proof cases
        case 1 with pre True show ?thesis by (blast intro: lower_trans)
      next
        case 2 with True show ?thesis by simp
      next
        case 3
        with post have "\<not> lower float (snd (snd x)) (snd (snd old))" by blast
        moreover have "numeric float (snd (snd x))" using num [of x] h 3 by simp
        ultimately show ?thesis using lower_total [OF num_old _ True] by blast
      qed
    qed
    have fl': "first_lowest float (hits_for (key a) lines @ [hit_of a]) (hit_of a)"
      unfolding first_lowest_def
      apply (rule exI [of _ "pre @ old # post"], rule exI [of _ "[]"])
      using all h by (simp add: hit_of_def)
    have "retained float r' (lines @ [line])"
      unfolding retained_def
    proof
      fix k
      show "if hits_for k (lines @ [line]) = [] then best_hit r' k = None
            else (\<exists>b. best_hit r' k = Some b \<and> first_lowest float (hits_for k (lines @ [line])) b)"
      proof (cases "k = key a")
        case True
        with rk fl' pl show ?thesis by (simp add: hits_for_snoc)
      next
        case False
        then show ?thesis
          using retained_other [OF inv pl, of k r'] rother by simp
      qed
    qed
    with r' show ?thesis by blast
  next
    case False
    from best_hit_insert_keep [OF Some numeric_Some [OF num_a] numeric_Some [OF num_old] False]
    have r': "insert_hit float result a = Inr result" .
    have fl': "first_lowest float (hits_for (key a) lines @ [hit_of a]) old"
      unfolding first_lowest_def
      apply (rule exI [of _ pre], rule exI [of _ "post @ [hit_of a]"])
      using h pre post False by (simp add: hit_of_def)
    have "retained float result (lines @ [line])"
      unfolding retained_def
    proof
      fix k
      show "if hits_for k (lines @ [line]) = [] then best_hit result k = None
            else (\<exists>b. best_hit result k = Some b \<and> first_lowest float (hits_for k (lines @ [line])) b)"
      proof (cases "k = key a")
        case True
        with Some fl' pl show ?thesis by (simp add: hits_for_snoc)
      next
        case False
        then show ?thesis
          using retained_other [OF inv pl, of k result] by simp
      qed
    qed
    with r' show ?thesis by blast
  qed
qed

lemma parse_blast_loop_retained:
  assumes "\<forall>l \<in> set lines. well_formed float l"
  shows "\<exists>result. parse_blast_loop float Map.empty lines = Inr result
            \<and> retained float result lines"
  using assms
proof (induction lines rule: rev_induct)
  case Nil
  show ?case
    by (simp add: retained_def hits_for_def alignments_def best_hit_def)
next
  case (snoc line lines)
  then obtain result where r: "parse_blast_loop float Map.empty lines = Inr result"
    "retained float result lines" by auto
  from snoc.prems have wfl: "well_formed float line" and wf: "\<forall>l \<in> set lines. well_formed float l"
    by auto
  from wfl obtain a where pl: "parse_line line = Inr a"
    by (auto simp: well_formed_def split: sum.splits)
  from retained_step [OF wf wfl pl r(2)] obtain result' where
    "insert_hit float result a = Inr result'" "retained float result' (lines @ [line])"
    by blast
  with r(1) pl show ?case
    by (simp add: parse_blast_loop_append)
qed

text \<open>
  Claim C1. For every input whose lines are alignment records (twelve tab-separated
  columns, composite ids, a numeric e-value), \<^verbatim>\<open>_parse_blast\<close> returns a table, and for
  every (query genome, query sequence, hit genome) triple the table holds no entry when
  no record has that triple and otherwise exactly one record: the first one, in input
  order, among those of lowest e-value. Whatever the order of the input lines, the same
  triples are present and the retained e-values are numerically equal.
\<close>

theorem parse_blast_best_hit:
  assumes "\<forall>line \<in> set lines. well_formed float line"
  shows "\<exists>result. parse_blast float lines = Inr result
           \<and> (\<forall>k. if hits_for k lines = [] then best_hit result k = None
                   else (\<exists>b. best_hit result k = Some b
                           \<and> first_lowest float (hits_for k lines) b))
           \<and> (\<forall>lines'. mset lines' = mset lines \<longrightarrow>
                 (\<exists>result'. parse_blast float lines' = Inr result'
                    \<and> (\<forall>k. (best_hit result' k = None \<longleftrightarrow> best_hit result k = None)
                          \<and> (\<forall>b b'. best_hit result k = Some b \<and> best_hit result' k = Some b'
                                \<longrightarrow> \<not> lower float (snd (snd b)) (snd (snd b'))
                                  \<and> \<not> lower float (snd (snd b')) (snd (snd b))))))"
proof -
  from parse_blast_loop_retained [OF assms] obtain result where
    r: "parse_blast float lines = Inr result" and ret: "retained float result lines"
    by (auto simp: parse_blast_def)
  have perm: "\<exists>result'. parse_blast float lines' = Inr result'
        \<and> (\<forall>k. (best_hit result' k = None \<longleftrightarrow> best_hit result k = None)
              \<and> (\<forall>b b'. best_hit result k = Some b \<and> best_hit result' k = Some b'
                    \<longrightarrow> \<not> lower float (snd (snd b)) (snd (snd b'))
                      \<and> \<not> lower float (snd (snd b')) (snd (snd b))))"
    if m: "mset lines' = mset lines" for lines'
  proof -
    from m have s: "set lines' = set lines" by (rule mset_eq_setD)
    with assms have "\<forall>line \<in> set lines'. well_formed float line" by simp
    from parse_blast_loop_retained [OF this] obtain result' where
      r': "parse_blast float lines' = Inr result'" and ret': "retained float result' lines'"
      by (auto simp: parse_blast_def)
    have sh: "set (hits_for k lines') = set (hits_for k lines)" for k
      using s by (auto simp: hits_for_def alignments_def)
    have "(best_hit result' k = None \<longleftrightarrow> best_hit result k = None)
              \<and> (\<forall>b b'. best_hit result k = Some b \<and> best_hit result' k = Some b'
                    \<longrightarrow> \<not> lower float (snd (snd b)) (snd (snd b'))
                      \<and> \<not> lower float (snd (snd b')) (snd (snd b)))" for k
    proof (intro conjI allI impI)
      show "best_hit result' k = None \<longleftrightarrow> best_hit result k = None"
      proof
        assume "best_hit result' k = None"
        with ret' have "hits_for k lines' = []" by (rule retained_None)
        with sh [of k] have "hits_for k lines = []" by simp
        then show "best_hit result k = None"
          using retained_Some [OF ret, of k] by (cases "best_hit result k") auto
      next
        assume "best_hit result k = None"
        with ret have "hits_for k lines = []" by (rule retained_None)
        with sh [of k] have "hits_for k lines' = []" by simp
        then show "best_hit result' k = None"
          using retained_Some [OF ret', of k] by (cases "best_hit result' k") auto
      qed
    next
      fix b b'
      assume bb: "best_hit result k = Some b \<and> best_hit result' k = Some b'"
      then have f: "first_lowest float (hits_for k lines) b"
        and f': "first_lowest float (hits_for k lines') b'"
        using retained_Some [OF ret] retained_Some [OF ret'] by blast+
      from first_lowest_mem [OF f] sh have "b \<in> set (hits_for k lines')" by simp
      from first_lowest_least [OF f' this]
      show "\<not> lower float (snd (snd b)) (snd (snd b'))" .
      from first_lowest_mem [OF f'] sh have "b' \<in> set (hits_for k lines)" by simp
      from first_lowest_least [OF f this]
      show "\<not> lower float (snd (snd b')) (snd (snd b))" .
    qed
    with r' show ?thesis by blast
  qed
  have "\<forall>k. if hits_for k lines = [] then best_hit result k = None
                   else (\<exists>b. best_hit result k = Some b
                           \<and> first_lowest float (hits_for k lines) b)"
    using ret unfolding retained_def .
  with r perm show ?thesis by blast
qed

theorem parse_blast_best_hit_witness:
  "well_formed float_ex (blast_line ''g1~p1'' ''g2~q7'' ''0.5'')
   \<and> well_formed float_ex (blast_line ''g1~p1'' ''g2~q9'' ''0.25'')
   \<and> (\<exists>result. parse_blast float_ex
         [blast_line ''g1~p1'' ''g2~q7'' ''0.5'', blast_line ''g1~p1'' ''g2~q9'' ''0.25'']
           = Inr result
        \<and> best_hit result (''g1'', ''p1'', ''g2'') = Some (''g2'', ''q9'', ''0.25''))"
proof -
  let ?l1 = "blast_line ''g1~p1'' ''g2~q7'' ''0.5''"
  let ?l2 = "blast_line ''g1~p1'' ''g2~q9'' ''0.25''"
  have wf1: "well_formed float_ex ?l1"
    by (simp add: well_formed_def numeric_def blast_line_def parse_line_def strip_def
                  whitespace_def Let_def float_ex_def)
  have wf2: "well_formed float_ex ?l2"
    by (simp add: well_formed_def numeric_def blast_line_def parse_line_def strip_def
                  whitespace_def Let_def float_ex_def)
  from wf1 wf2 have wf: "\<forall>line \<in> set [?l1, ?l2]. well_formed float_ex line"
    by simp
  from parse_blast_best_hit [OF wf] obtain result where
    r: "parse_blast float_ex [?l1, ?l2] = Inr result" by blast
  have "parse_blast float_ex [?l1, ?l2] = Inr
          [''g1'' \<mapsto> [''p1'' \<mapsto> [''g2'' \<mapsto> (''g2'', ''q9'', ''0.25'')]]]"
    by (simp add: blast_line_def parse_blast_def parse_line_def strip_def whitespace_def
                  Let_def insert_hit_def float_ex_def)
  with r have "result = [''g1'' \<mapsto> [''p1'' \<mapsto> [''g2'' \<mapsto> (''g2'', ''q9'', ''0.25'')]]]"
    by simp
  then have "best_hit result (''g1'', ''p1'', ''g2'') = Some (''g2'', ''q9'', ''0.25'')"
    by (simp add: best_hit_def)
  with wf1 wf2 r show ?thesis by blast
qed

lemma insert_hit_cases:
  assumes "insert_hit float result a = Inr result'"
  shows "best_hit result' k = best_hit result k \<or> (k = key a \<and> best_hit result' k = Some (hit_of a))"
proof (cases "best_hit result (key a)")
  case None
  from best_hit_insert_new [OF None, of float] obtain r' where
    "insert_hit float result a = Inr r'" "best_hit r' (key a) = Some (hit_of a)"
    "\<And>k. k \<noteq> key a \<Longrightarrow> best_hit r' k = best_hit result k" by blast
  with assms show ?thesis by (cases "k = key a") fastforce+
next
  case (Some old)
  show ?thesis
  proof (cases "lower float (evalue a) (snd (snd old))")
    case True
    from best_hit_insert_replace [OF Some True] obtain r' where
      "insert_hit float result a = Inr r'" "best_hit r' (key a) = Some (hit_of a)"
      "\<And>k. k \<noteq> key a \<Longrightarrow> best_hit r' k = best_hit result k" by blast
    with assms show ?thesis by (cases "k = key a") fastforce+
  next
    case False
    have "float (evalue a) \<noteq> None \<and> float (snd (snd old)) \<noteq> None"
      using assms Some
      by (cases old)
         (auto simp: insert_hit_def best_hit_def key_def Let_def split: option.splits if_splits)
    with best_hit_insert_keep [OF Some _ _ False] assms show ?thesis by auto
  qed
qed

lemma from_input_step:
  assumes "from_input result lines" and "parse_line line = Inr a"
    and "insert_hit float result a = Inr result'"
  shows "from_input result' (lines @ [line])"
  unfolding from_input_def
proof (intro allI impI)
  fix k h
  assume h: "best_hit result' k = Some h"
  have al: "alignments (lines @ [line]) = alignments lines @ [a]"
    using assms(2) by (simp add: alignments_def)
  from insert_hit_cases [OF assms(3), of k]
  show "\<exists>a \<in> set (alignments (lines @ [line])). key a = k \<and> hit_of a = h"
  proof
    assume "best_hit result' k = best_hit result k"
    with h assms(1) obtain a' where "a' \<in> set (alignments lines)" "key a' = k" "hit_of a' = h"
      unfolding from_input_def by metis
    then show ?thesis using al by auto
  next
    assume "k = key a \<and> best_hit result' k = Some (hit_of a)"
    with h show ?thesis using al by auto
  qed
qed

lemma parse_line_error:
  "parse_line line = Inl e \<Longrightarrow> e = ValueError_too_many \<or> (\<exists>n. e = ValueError_need_more n)"
  by (auto simp: parse_line_def unpack_error_def Let_def split: if_splits list.splits)

lemma insert_hit_error_value:
  assumes "insert_hit float result a = Inl e"
  shows "\<exists>old. best_hit result (key a) = Some old
           \<and> ((e = ValueError_float (evalue a) \<and> float (evalue a) = None)
              \<or> (e = ValueError_float (snd (snd old)) \<and> float (snd (snd old)) = None))"
  using assms
  by (auto simp: insert_hit_def best_hit_def key_def Let_def
           split: option.splits if_splits)

lemma raised_by_mono: "raised_by float lines e \<Longrightarrow> raised_by float (lines @ rest) e"
  unfolding raised_by_def alignments_append by auto

lemma parse_blast_loop_outcome:
  "case parse_blast_loop float Map.empty lines of
     Inl e \<Rightarrow> raised_by float lines e
   | Inr result \<Rightarrow> from_input result lines"
proof (induction lines rule: rev_induct)
  case Nil
  show ?case by (simp add: from_input_def best_hit_def)
next
  case (snoc line lines)
  show ?case
  proof (cases "parse_blast_loop float Map.empty lines")
    case (Inl e)
    with snoc show ?thesis
      by (simp add: parse_blast_loop_append raised_by_mono)
  next
    case (Inr result)
    with snoc have fi: "from_input result lines" by simp
    show ?thesis
    proof (cases "parse_line line")
      case (Inl e)
      from parse_line_error [OF Inl] Inl have "raised_by float (lines @ [line]) e"
        unfolding raised_by_def by auto
      with Inl Inr show ?thesis by (simp add: parse_blast_loop_append)
    next
      case pl: (Inr a)
      have al: "alignments (lines @ [line]) = alignments lines @ [a]"
        using pl by (simp add: alignments_def)
      show ?thesis
      proof (cases "insert_hit float result a")
        case (Inl e)
        from insert_hit_error_value [OF Inl] obtain old where
          old: "best_hit result (key a) = Some old"
          and e: "(e = ValueError_float (evalue a) \<and> float (evalue a) = None)
              \<or> (e = ValueError_float (snd (snd old)) \<and> float (snd (snd old)) = None)"
          by blast
        from fi old obtain a' where a': "a' \<in> set (alignments lines)" "key a' = key a"
          "hit_of a' = old" unfolding from_input_def by metis
        from a'(1,2) have "key a \<in> key ` set (alignments lines)"
          by (metis imageI)
        then have nd: "\<not> distinct (map key (alignments (lines @ [line])))"
          unfolding al by simp
        from a'(3) have ev: "snd (snd old) = evalue a'" by (auto simp: hit_of_def)
        from e have "raised_by float (lines @ [line]) e"
        proof
          assume "e = ValueError_float (evalue a) \<and> float (evalue a) = None"
          with nd show ?thesis unfolding raised_by_def al by auto
        next
          assume "e = ValueError_float (snd (snd old)) \<and> float (snd (snd old)) = None"
          with nd a'(1) ev show ?thesis unfolding raised_by_def al by auto
        qed
        with Inl pl Inr show ?thesis by (simp add: parse_blast_loop_append)
      next
        case r': (Inr result')
        from from_input_step [OF fi pl r'] r' pl Inr show ?thesis
          by (simp add: parse_blast_loop_append)
      qed
    qed
  qed
qed

lemma parse_blast_loop_float_error:
  assumes "\<forall>line \<in> set lines. \<not> isl (parse_line line)"
    and "parse_blast_loop float Map.empty lines = Inl e"
  shows "\<exists>s. e = ValueError_float s \<and> float s = None
           \<and> s \<in> evalue ` set (alignments lines)
           \<and> \<not> distinct (map key (alignments lines))"
proof -
  from parse_blast_loop_outcome [of float lines] assms(2)
  have "raised_by float lines e" by simp
  moreover from assms(1) have "\<not> (\<exists>line \<in> set lines. parse_line line = Inl e)"
    by auto
  ultimately show ?thesis unfolding raised_by_def by blast
qed

lemmas blast_eval = blast_line_def parse_blast_def parse_line_def unpack_error_def strip_def
  whitespace_def Let_def insert_hit_def float_ex_def

text \<open>
  Claim C7, as the code has it. \<^verbatim>\<open>_parse_blast\<close> validates nothing itself. Take the first
  record of the wrong shape (not twelve columns, or a query or subject id that does not
  split in two at the tilde). Unpacking it raises \<^verbatim>\<open>too many values to unpack\<close> or
  \<^verbatim>\<open>need more than n values to unpack\<close>, neither of which names the line, and the call
  fails with that error, whatever follows the record, unless the records before it have
  already made the call fail; that earlier failure is then the conversion error of an
  e-value that is no number, among records that repeat a (query genome, query sequence,
  hit genome) triple. In general, whenever the call fails, the error is either the
  unpacking error of a record of the wrong shape or such a conversion error.
\<close>

theorem parse_blast_malformed:
  "((\<forall>l \<in> set pre. \<not> isl (parse_line l)) \<and> parse_line bad = Inl e0 \<longrightarrow>
      (e0 = ValueError_too_many \<or> (\<exists>n. e0 = ValueError_need_more n))
      \<and> parse_blast float (pre @ bad # post)
          = (case parse_blast float pre of Inl e' \<Rightarrow> Inl e' | Inr result \<Rightarrow> Inl e0)
      \<and> (\<forall>e'. parse_blast float pre = Inl e' \<longrightarrow>
            (\<exists>s. e' = ValueError_float s \<and> float s = None
               \<and> s \<in> evalue ` set (alignments pre)
               \<and> \<not> distinct (map key (alignments pre)))))
   \<and> (parse_blast float lines = Inl e \<longrightarrow>
        ((e = ValueError_too_many \<or> (\<exists>n. e = ValueError_need_more n))
           \<and> (\<exists>line \<in> set lines. parse_line line = Inl e))
      \<or> (\<exists>s. e = ValueError_float s \<and> float s = None
            \<and> s \<in> evalue ` set (alignments lines)
            \<and> \<not> distinct (map key (alignments lines))))"
proof (intro conjI impI allI)
  assume h: "(\<forall>l \<in> set pre. \<not> isl (parse_line l)) \<and> parse_line bad = Inl e0"
  then show "e0 = ValueError_too_many \<or> (\<exists>n. e0 = ValueError_need_more n)"
    using parse_line_error [of bad e0] by simp
  from h show "parse_blast float (pre @ bad # post)
          = (case parse_blast float pre of Inl e' \<Rightarrow> Inl e' | Inr result \<Rightarrow> Inl e0)"
    by (simp add: parse_blast_def parse_blast_loop_append split: sum.splits)
  fix e'
  assume "parse_blast float pre = Inl e'"
  with h parse_blast_loop_float_error [of pre float e']
  show "\<exists>s. e' = ValueError_float s \<and> float s = None
               \<and> s \<in> evalue ` set (alignments pre)
               \<and> \<not> distinct (map key (alignments pre))"
    by (simp add: parse_blast_def)
next
  assume "parse_blast float lines = Inl e"
  with parse_blast_loop_outcome [of float lines]
  show "((e = ValueError_too_many \<or> (\<exists>n. e = ValueError_need_more n))
           \<and> (\<exists>line \<in> set lines. parse_line line = Inl e))
      \<or> (\<exists>s. e = ValueError_float s \<and> float s = None
            \<and> s \<in> evalue ` set (alignments lines)
            \<and> \<not> distinct (map key (alignments lines)))"
    by (simp add: parse_blast_def raised_by_def)
qed

theorem parse_blast_malformed_witness:
  "\<not> isl (parse_line (blast_line ''g1~p1'' ''g2~q7'' ''0.5''))
   \<and> parse_line (''g1~p1'' @ [CHR 0x09] @ ''g2~q7'' @ [CHR 0x0A]) = Inl (ValueError_need_more 2)
   \<and> parse_blast float_ex
          [blast_line ''g1~p1'' ''g2~q7'' ''0.5'',
           ''g1~p1'' @ [CHR 0x09] @ ''g2~q7'' @ [CHR 0x0A],
           blast_line ''g1~p1'' ''g2~q9'' ''abc'']
        = Inl (ValueError_need_more 2)
   \<and> parse_blast float_ex
          [blast_line ''g1~p1'' ''g2~q7'' ''0.5'', blast_line ''g1~p1'' ''g2~q9'' ''abc'']
        = Inl (ValueError_float ''abc'')
   \<and> \<not> isl (parse_line (blast_line ''g1~p1'' ''g2~q9'' ''abc''))
   \<and> parse_blast float_ex
          [blast_line ''g1~p1'' ''g2~q7'' ''0.5'', blast_line ''g1~p1'' ''g2~q9'' ''abc'',
           ''g1~p1'' @ [CHR 0x09] @ ''g2~q7'' @ [CHR 0x0A]]
        = Inl (ValueError_float ''abc'')
   \<and> float_ex ''abc'' = None
   \<and> \<not> distinct (map key (alignments
          [blast_line ''g1~p1'' ''g2~q7'' ''0.5'', blast_line ''g1~p1'' ''g2~q9'' ''abc'']))"
proof -
  let ?bad = "''g1~p1'' @ [CHR 0x09] @ ''g2~q7'' @ [CHR 0x0A]"
  let ?l1 = "blast_line ''g1~p1'' ''g2~q7'' ''0.5''"
  let ?l2 = "blast_line ''g1~p1'' ''g2~q9'' ''abc''"
  have ok: "\<not> isl (parse_line ?l1)"
    by (simp add: blast_eval)
  have bad: "parse_line ?bad = Inl (ValueError_need_more 2)"
    by (simp add: blast_eval)
  have pre: "\<not> isl (parse_blast float_ex [?l1])"
    by (simp add: blast_eval)
  from ok bad
  have h: "(\<forall>l \<in> set [?l1]. \<not> isl (parse_line l))
             \<and> parse_line ?bad = Inl (ValueError_need_more 2)"
    by simp
  from parse_blast_malformed [of "[?l1]" ?bad "ValueError_need_more 2" float_ex "[?l2]"] h
  have "parse_blast float_ex ([?l1] @ ?bad # [?l2])
          = (case parse_blast float_ex [?l1] of
               Inl e' \<Rightarrow> Inl e' | Inr result \<Rightarrow> Inl (ValueError_need_more 2))"
    by blast
  with pre have fails: "parse_blast float_ex [?l1, ?bad, ?l2] = Inl (ValueError_need_more 2)"
    by (cases "parse_blast float_ex [?l1]") simp_all
  have err: "parse_blast float_ex [?l1, ?l2] = Inl (ValueError_float ''abc'')"
    by (simp add: blast_eval)
  from parse_blast_malformed [of "[?l1]" ?bad "ValueError_need_more 2" float_ex "[?l2]"
      "[?l1, ?l2]" "ValueError_float ''abc''"] err
  have "float_ex ''abc'' = None \<and> \<not> distinct (map key (alignments [?l1, ?l2]))"
    by simp
  moreover have ok2: "\<not> isl (parse_line ?l2)"
    by (simp add: blast_eval)
  moreover from ok ok2 bad
  have "(\<forall>l \<in> set [?l1, ?l2]. \<not> isl (parse_line l))
          \<and> parse_line ?bad = Inl (ValueError_need_more 2)"
    by simp
  with parse_blast_malformed [of "[?l1, ?l2]" ?bad "ValueError_need_more 2" float_ex "[]"]
  have "parse_blast float_ex ([?l1, ?l2] @ ?bad # [])
          = (case parse_blast float_ex [?l1, ?l2] of
               Inl e' \<Rightarrow> Inl e' | Inr result \<Rightarrow> Inl (ValueError_need_more 2))"
    by blast
  with err have "parse_blast float_ex [?l1, ?l2, ?bad] = Inl (ValueError_float ''abc'')"
    by simp
  ultimately show ?thesis using ok bad fails err by (intro conjI) simp_all
qed

theorem parse_blast_malformed_counterexample:
  "float_ex ''abc'' = None
   \<and> parse_blast float_ex [blast_line ''g1~p1'' ''g2~q7'' ''abc'']
       = Inr [''g1'' \<mapsto> [''p1'' \<mapsto> [''g2'' \<mapsto> (''g2'', ''q7'', ''abc'')]]]
   \<and> parse_blast float_ex [''g1~p1'' @ [CHR 0x09] @ ''g2~q7'' @ [CHR 0x09] @ ''0.5'' @ [CHR 0x0A]]
       = Inl (ValueError_need_more 3)
   \<and> parse_blast float_ex [blast_line ''g1~p1~x'' ''g2~q7'' ''0.5''] = Inl ValueError_too_many"
  by (simp add: blast_eval)

text \<open>
  Claim C10. The table stores the e-value column as the string read, and the conversion
  to float happens only when a record arrives for a triple already present. So for every
  input whose records have the right shape and whose triples are all different,
  \<^verbatim>\<open>_parse_blast\<close> returns a table holding every record with its e-value string, whatever
  the conversion \<open>float\<close> makes of these strings.
\<close>

theorem parse_blast_unique_triples:
  assumes "\<forall>line \<in> set lines. \<not> isl (parse_line line)"
    and "distinct (map key (alignments lines))"
  shows "\<exists>result. parse_blast float lines = Inr result
           \<and> (\<forall>a \<in> set (alignments lines).
                 best_hit result (key a) = Some (hit_genome a, hit_sequence_id a, evalue a))
           \<and> (\<forall>k. k \<notin> key ` set (alignments lines) \<longrightarrow> best_hit result k = None)"
  using assms unfolding parse_blast_def
proof (induction lines rule: rev_induct)
  case Nil
  show ?case by (simp add: alignments_def best_hit_def)
next
  case (snoc line lines)
  from snoc.prems(1) obtain a where pl: "parse_line line = Inr a"
    by (cases "parse_line line") auto
  have al: "alignments (lines @ [line]) = alignments lines @ [a]"
    using pl by (simp add: alignments_def)
  from snoc.prems(2) have d: "distinct (map key (alignments lines))"
    and new: "key a \<notin> key ` set (alignments lines)"
    unfolding al by auto
  from snoc.IH snoc.prems(1) d obtain result where
    r: "parse_blast_loop float Map.empty lines = Inr result"
    and present: "\<And>a'. a' \<in> set (alignments lines) \<Longrightarrow>
           best_hit result (key a') = Some (hit_genome a', hit_sequence_id a', evalue a')"
    and absent: "\<And>k. k \<notin> key ` set (alignments lines) \<Longrightarrow> best_hit result k = None"
    by auto
  from absent [OF new] have "best_hit result (key a) = None" .
  from best_hit_insert_new [OF this, of float] obtain r' where
    r': "insert_hit float result a = Inr r'"
    and rk: "best_hit r' (key a) = Some (hit_of a)"
    and rother: "\<And>k. k \<noteq> key a \<Longrightarrow> best_hit r' k = best_hit result k"
    by blast
  have loop: "parse_blast_loop float Map.empty (lines @ [line]) = Inr r'"
    using r pl r' by (simp add: parse_blast_loop_append)
  have p': "best_hit r' (key a') = Some (hit_genome a', hit_sequence_id a', evalue a')"
    if "a' \<in> set (alignments (lines @ [line]))" for a'
  proof (cases "a' = a")
    case True
    with rk show ?thesis by (simp add: hit_of_def)
  next
    case False
    with that have m: "a' \<in> set (alignments lines)" unfolding al by simp
    with new have "key a' \<noteq> key a" by (metis imageI)
    with rother present [OF m] show ?thesis by simp
  qed
  have a': "best_hit r' k = None" if "k \<notin> key ` set (alignments (lines @ [line]))" for k
  proof -
    from that have "k \<noteq> key a" "k \<notin> key ` set (alignments lines)" unfolding al by auto
    with rother absent show ?thesis by simp
  qed
  from loop p' a' show ?case by blast
qed

theorem parse_blast_unique_triples_witness:
  "\<not> isl (parse_line (blast_line ''g1~p1'' ''g2~q7'' ''abc''))
   \<and> \<not> isl (parse_line (blast_line ''g1~p2'' ''g2~q9'' ''0.5''))
   \<and> distinct (map key (alignments
        [blast_line ''g1~p1'' ''g2~q7'' ''abc'', blast_line ''g1~p2'' ''g2~q9'' ''0.5'']))
   \<and> float_ex ''abc'' = None
   \<and> (\<exists>result. parse_blast float_ex
         [blast_line ''g1~p1'' ''g2~q7'' ''abc'', blast_line ''g1~p2'' ''g2~q9'' ''0.5'']
           = Inr result
        \<and> best_hit result (''g1'', ''p1'', ''g2'') = Some (''g2'', ''q7'', ''abc''))"
proof -
  let ?l1 = "blast_line ''g1~p1'' ''g2~q7'' ''abc''"
  let ?l2 = "blast_line ''g1~p2'' ''g2~q9'' ''0.5''"
  have p1: "parse_line ?l1 = Inr \<lparr>query_genome = ''g1'', sequence_id = ''p1'',
      hit_genome = ''g2'', hit_sequence_id = ''q7'', evalue = ''abc''\<rparr>"
    by (simp add: blast_eval)
  have p2: "parse_line ?l2 = Inr \<lparr>query_genome = ''g1'', sequence_id = ''p2'',
      hit_genome = ''g2'', hit_sequence_id = ''q9'', evalue = ''0.5''\<rparr>"
    by (simp add: blast_eval)
  have h1: "\<forall>line \<in> set [?l1, ?l2]. \<not> isl (parse_line line)"
    using p1 p2 by simp
  have h2: "distinct (map key (alignments [?l1, ?l2]))"
    using p1 p2 by (simp add: alignments_def key_def)
  from parse_blast_unique_triples [OF h1 h2, of float_ex] obtain result where
    r: "parse_blast float_ex [?l1, ?l2] = Inr result"
    and all: "\<forall>a \<in> set (alignments [?l1, ?l2]).
                 best_hit result (key a) = Some (hit_genome a, hit_sequence_id a, evalue a)"
    by blast
  from all p1 have "best_hit result (''g1'', ''p1'', ''g2'') = Some (''g2'', ''q7'', ''abc'')"
    by (simp add: alignments_def key_def)
  moreover have "float_ex ''abc'' = None" by (simp add: float_ex_def)
  ultimately show ?thesis using p1 p2 h2 r by simp
qed

section \<open>Properties of \<^verbatim>\<open>_metadata_parser\<close>\<close>

lemma metadata_loop_append:
  "metadata_loop st (xs @ ys) =
     (case metadata_loop st xs of Inl e \<Rightarrow> Inl e | Inr st' \<Rightarrow> metadata_loop st' ys)"
proof (induction xs arbitrary: st)
  case Nil
  show ?case by (cases st) simp
next
  case (Cons x xs)
  show ?case by (cases st) (auto simp: Cons split: sum.splits)
qed

lemma grouped_snoc:
  "(case grouped es grp of
      Some members \<Rightarrow> (grouped es)(grp \<mapsto> insert g members)
    | None \<Rightarrow> (grouped es)(grp \<mapsto> {g})) = grouped (es @ [(g, grp)])"
  by (rule ext) (auto simp: grouped_def image_iff)

lemma repeated_append: "repeated es g \<Longrightarrow> repeated (es @ rest) g"
  unfolding repeated_def by (metis append_Cons append_assoc)

lemma metadata_loop_outcome:
  assumes "\<forall>line \<in> set lines. \<not> isl (parse_metadata_line line)"
  shows "case metadata_loop (Map.empty, {}) lines of
           Inl e \<Rightarrow> (\<exists>g. e = DuplicateEntry g \<and> repeated (entries lines) g)
         | Inr (metadata, seen) \<Rightarrow>
             distinct (map fst (entries lines)) \<and> seen = fst ` set (entries lines)
             \<and> metadata = grouped (entries lines)"
  using assms
proof (induction lines rule: rev_induct)
  case Nil
  show ?case by (simp add: entries_def grouped_def)
next
  case (snoc line lines)
  from snoc.prems obtain g grp where pl: "parse_metadata_line line = Inr (g, grp)"
    by (cases "parse_metadata_line line") auto
  have en: "entries (lines @ [line]) = entries lines @ [(g, grp)]"
    using pl by (simp add: entries_def)
  show ?case
  proof (cases "metadata_loop (Map.empty, {}) lines")
    case (Inl e)
    with snoc show ?thesis
      by (auto simp: metadata_loop_append en intro: repeated_append)
  next
    case (Inr st)
    obtain metadata seen where st: "st = (metadata, seen)" by (cases st)
    from snoc Inr st have d: "distinct (map fst (entries lines))"
      and seen: "seen = fst ` set (entries lines)"
      and md: "metadata = grouped (entries lines)" by auto
    show ?thesis
    proof (cases "g \<in> seen")
      case True
      then have "repeated (entries (lines @ [line])) g"
        unfolding repeated_def en seen by blast
      with True Inr st pl show ?thesis
        by (simp add: metadata_loop_append)
    next
      case False
      with d seen have "distinct (map fst (entries (lines @ [line])))"
        unfolding en by simp
      moreover have "insert g seen = fst ` set (entries (lines @ [line]))"
        unfolding en seen by simp
      ultimately show ?thesis
        using False Inr st pl grouped_snoc [of "entries lines" grp g]
        by (simp add: metadata_loop_append md en)
    qed
  qed
qed

text \<open>
  Claim C5. For a metadata file whose lines all have two tab-separated columns: when no
  genome name is repeated, \<^verbatim>\<open>_metadata_parser\<close> returns a mapping in which every genome
  name of the file is in the set of the group of its line and in no other group's set
  (and the sets hold nothing else); when some genome name occurs on two lines, under the
  same or different labels, it raises the duplicate-entry error for the first name that
  occurs a second time.
\<close>

theorem metadata_parser_duplicates:
  assumes "\<forall>line \<in> set lines. \<not> isl (parse_metadata_line line)"
  shows "if distinct (map fst (entries lines))
         then \<exists>metadata. metadata_parser lines = Inr metadata
                \<and> (\<forall>(g, grp) \<in> set (entries lines).
                      (\<exists>members. metadata grp = Some members \<and> g \<in> members)
                      \<and> (\<forall>grp' members'. metadata grp' = Some members' \<and> g \<in> members'
                            \<longrightarrow> grp' = grp))
                \<and> (\<forall>grp members. metadata grp = Some members \<longrightarrow>
                      members \<noteq> {} \<and> (\<forall>g \<in> members. (g, grp) \<in> set (entries lines)))
         else \<exists>g. metadata_parser lines = Inl (DuplicateEntry g)
                \<and> (\<exists>pre post grp. entries lines = pre @ (g, grp) # post
                       \<and> g \<in> fst ` set pre)"
proof (cases "metadata_loop (Map.empty, {}) lines")
  case (Inl e)
  with metadata_loop_outcome [OF assms] obtain g where
    g: "e = DuplicateEntry g" "repeated (entries lines) g" by auto
  from g(2) have "\<not> distinct (map fst (entries lines))"
    unfolding repeated_def by force
  with Inl g show ?thesis
    by (simp add: metadata_parser_def repeated_def)
next
  case (Inr st)
  obtain metadata seen where st: "st = (metadata, seen)" by (cases st)
  from metadata_loop_outcome [OF assms] Inr st
  have d: "distinct (map fst (entries lines))"
    and md: "metadata = grouped (entries lines)" by auto
  have res: "metadata_parser lines = Inr metadata"
    using Inr st by (simp add: metadata_parser_def)
  have one: "(\<exists>members. metadata grp = Some members \<and> g \<in> members)
             \<and> (\<forall>grp' members'. metadata grp' = Some members' \<and> g \<in> members'
                   \<longrightarrow> grp' = grp)"
    if "(g, grp) \<in> set (entries lines)" for g grp
  proof
    from that show "\<exists>members. metadata grp = Some members \<and> g \<in> members"
      unfolding md grouped_def by force
    show "\<forall>grp' members'. metadata grp' = Some members' \<and> g \<in> members' \<longrightarrow> grp' = grp"
    proof (intro allI impI)
      fix grp' members'
      assume "metadata grp' = Some members' \<and> g \<in> members'"
      then have "(g, grp') \<in> set (entries lines)"
        unfolding md grouped_def by (auto split: if_splits)
      with that d show "grp' = grp"
        by (meson eq_key_imp_eq_value)
    qed
  qed
  have origin: "members \<noteq> {} \<and> (\<forall>g \<in> members. (g, grp) \<in> set (entries lines))"
    if "metadata grp = Some members" for grp members
    using that unfolding md grouped_def by (auto split: if_splits)
  from d res one origin show ?thesis by auto
qed

theorem metadata_parser_duplicates_witness:
  "\<not> isl (parse_metadata_line (''g1'' @ [CHR 0x09] @ ''A'' @ [CHR 0x0A]))
   \<and> \<not> isl (parse_metadata_line (''g2'' @ [CHR 0x09] @ ''B'' @ [CHR 0x0A]))
   \<and> metadata_parser [''g1'' @ [CHR 0x09] @ ''A'' @ [CHR 0x0A],
                        ''g2'' @ [CHR 0x09] @ ''B'' @ [CHR 0x0A],
                        ''g1'' @ [CHR 0x09] @ ''B'' @ [CHR 0x0A]] = Inl (DuplicateEntry ''g1'')
   \<and> (\<exists>metadata. metadata_parser [''g1'' @ [CHR 0x09] @ ''A'' @ [CHR 0x0A],
                        ''g2'' @ [CHR 0x09] @ ''B'' @ [CHR 0x0A]] = Inr metadata
         \<and> metadata ''A'' = Some {''g1''} \<and> metadata ''B'' = Some {''g2''})"
proof -
  let ?l1 = "''g1'' @ [CHR 0x09] @ ''A'' @ [CHR 0x0A]"
  let ?l2 = "''g2'' @ [CHR 0x09] @ ''B'' @ [CHR 0x0A]"
  let ?l3 = "''g1'' @ [CHR 0x09] @ ''B'' @ [CHR 0x0A]"
  have p1: "parse_metadata_line ?l1 = Inr (''g1'', ''A'')"
    by (simp add: parse_metadata_line_def strip_def whitespace_def)
  have p2: "parse_metadata_line ?l2 = Inr (''g2'', ''B'')"
    by (simp add: parse_metadata_line_def strip_def whitespace_def)
  have p3: "parse_metadata_line ?l3 = Inr (''g1'', ''B'')"
    by (simp add: parse_metadata_line_def strip_def whitespace_def)
  have wf3: "\<forall>line \<in> set [?l1, ?l2, ?l3]. \<not> isl (parse_metadata_line line)"
    using p1 p2 p3 by simp
  have wf2: "\<forall>line \<in> set [?l1, ?l2]. \<not> isl (parse_metadata_line line)"
    using p1 p2 by simp
  have dup: "metadata_parser [?l1, ?l2, ?l3] = Inl (DuplicateEntry ''g1'')"
    using metadata_parser_duplicates [OF wf3] p1 p2 p3
    by (simp add: metadata_parser_def)
  have e2: "entries [?l1, ?l2] = [(''g1'', ''A''), (''g2'', ''B'')]"
    using p1 p2 by (simp add: entries_def)
  from metadata_parser_duplicates [OF wf2] e2 obtain metadata where
    r: "metadata_parser [?l1, ?l2] = Inr metadata" by auto
  from r p1 p2 have "metadata ''A'' = Some {''g1''} \<and> metadata ''B'' = Some {''g2''}"
    by (auto simp: metadata_parser_def)
  with p1 p2 dup r show ?thesis by simp
qed

section \<open>Properties of \<^verbatim>\<open>_pan_genome\<close>\<close>

subsection \<open>Rounding to a double\<close>

lemma bitlen_bounds: "0 < n \<Longrightarrow> 2 ^ (bitlen n - 1) \<le> n \<and> n < 2 ^ bitlen n"
proof (induction n rule: bitlen.induct)
  case (1 n)
  show ?case
  proof (cases "n div 2 = 0")
    case True
    with 1(2) have "n = 1" by (simp add: div_eq_0_iff) 
    then show ?thesis by (simp add: bitlen.simps [of "Suc 0"] bitlen.simps [of 0])
  next
    case False
    with 1 have ih: "2 ^ (bitlen (n div 2) - 1) \<le> n div 2" "n div 2 < 2 ^ bitlen (n div 2)"
      by auto
    from False have pos: "0 < bitlen (n div 2)" by (simp add: bitlen.simps [of "n div 2"])
    have b: "bitlen n = Suc (bitlen (n div 2))" using 1(2) by (simp add: bitlen.simps [of n])
    from pos obtain j where j: "bitlen (n div 2) = Suc j" by (cases "bitlen (n div 2)") auto
    from ih j have "2 ^ j \<le> n div 2" "n div 2 < 2 ^ Suc j" by auto
    then have "2 * 2 ^ j \<le> n" "n < 2 * 2 ^ Suc j" by auto
    with b j show ?thesis by simp
  qed
qed

lemma bitlen_pos: "0 < n \<Longrightarrow> 0 < bitlen n"
  by (simp add: bitlen.simps [of n])

lemma two_powi_pos: "0 < (2::rat) powi k"
  by (simp add: zero_less_power_int)

lemma two_powi_mono: "j \<le> k \<Longrightarrow> (2::rat) powi j \<le> 2 powi k"
  by (rule power_int_increasing) simp_all

lemma two_powi_add: "(2::rat) powi (j + k) = 2 powi j * 2 powi k"
  by (rule power_int_add) simp

lemma two_powi_diff: "(2::rat) powi (j - k) = 2 powi j / 2 powi k"
  by (rule power_int_diff) simp

lemma expo_bounds:
  assumes "x \<noteq> 0"
  shows "2 powi expo x \<le> \<bar>x\<bar> \<and> \<bar>x\<bar> < 2 powi (expo x + 1)"
proof (cases "1 \<le> \<bar>x\<bar>")
  case True
  define n where "n = nat \<lfloor>\<bar>x\<bar>\<rfloor>"
  from True have fl: "1 \<le> \<lfloor>\<bar>x\<bar>\<rfloor>" by simp
  then have n: "0 < n" "rat_of_nat n = of_int \<lfloor>\<bar>x\<bar>\<rfloor>" by (simp_all add: n_def)
  from bitlen_bounds [OF n(1)] have b: "2 ^ (bitlen n - 1) \<le> n" "n < 2 ^ bitlen n" by auto
  from bitlen_pos [OF n(1)] obtain j where j: "bitlen n = Suc j" by (cases "bitlen n") auto
  have e: "expo x = int j" using True j by (simp add: expo_def n_def)
  from b j have "rat_of_nat (2 ^ j) \<le> rat_of_nat n" by (simp del: of_nat_power)
  also have "\<dots> \<le> \<bar>x\<bar>" unfolding n(2) by simp
  finally have lo: "2 powi (int j) \<le> \<bar>x\<bar>" by (simp add: power_int_of_nat)
  have "\<bar>x\<bar> < of_int \<lfloor>\<bar>x\<bar>\<rfloor> + 1" by linarith
  also have "\<dots> = rat_of_nat (n + 1)" using n(2) by simp
  also from b j have "n + 1 \<le> 2 ^ Suc j" by simp
  then have "rat_of_nat (n + 1) \<le> rat_of_nat (2 ^ Suc j)" by (simp only: of_nat_le_iff)
  finally have "\<bar>x\<bar> < 2 ^ Suc j" by simp
  then have hi: "\<bar>x\<bar> < 2 powi (int j + 1)"
    using power_int_of_nat [of "2::rat" "Suc j"] by (simp add: add.commute)
  from lo hi e show ?thesis by simp
next
  case False
  with assms have x: "0 < \<bar>x\<bar>" "\<bar>x\<bar> < 1" by simp_all
  define y where "y = 1 / \<bar>x\<bar>"
  from x have y: "1 < y" "\<bar>x\<bar> = 1 / y" by (simp_all add: y_def)
  define n where "n = nat (\<lceil>y\<rceil> - 1)"
  from y(1) have c: "2 \<le> \<lceil>y\<rceil>" by linarith
  then have n: "0 < n" "rat_of_nat n = of_int \<lceil>y\<rceil> - 1" by (simp_all add: n_def)
  from bitlen_bounds [OF n(1)] have b: "2 ^ (bitlen n - 1) \<le> n" "n < 2 ^ bitlen n" by auto
  from bitlen_pos [OF n(1)] obtain j where j: "bitlen n = Suc j" by (cases "bitlen n") auto
  have e: "expo x = - int (Suc j)" using False j by (simp add: expo_def n_def y_def)
  from b j have "rat_of_nat (2 ^ j) \<le> rat_of_nat n" by (simp del: of_nat_power)
  also have "\<dots> < y" unfolding n(2) by linarith
  finally have lo: "2 ^ j < y" by simp
  have "y \<le> of_int \<lceil>y\<rceil>" by simp
  also have "\<dots> = rat_of_nat (n + 1)" using n(2) by simp
  also from b j have "n + 1 \<le> 2 ^ Suc j" by simp
  then have "rat_of_nat (n + 1) \<le> rat_of_nat (2 ^ Suc j)" by (simp only: of_nat_le_iff)
  finally have hi: "y \<le> 2 ^ Suc j" by simp
  from hi y(1) have "1 / 2 ^ Suc j \<le> 1 / y"
    by (intro divide_left_mono) simp_all
  then have l: "2 powi (- int (Suc j)) \<le> \<bar>x\<bar>"
    unfolding y(2) power_int_minus_divide power_int_of_nat .
  from lo y(1) have "1 / y < 1 / 2 ^ j"
    by (intro divide_strict_left_mono mult_pos_pos) simp_all
  then have "\<bar>x\<bar> < 2 powi (- int j)"
    unfolding y(2) power_int_minus_divide power_int_of_nat .
  then have h: "\<bar>x\<bar> < 2 powi (- int (Suc j) + 1)" by simp
  from l h e show ?thesis by simp
qed

lemma expo_unique:
  assumes "2 powi e \<le> \<bar>x\<bar>" and "\<bar>x\<bar> < 2 powi (e + 1)"
  shows "expo x = e"
proof -
  from assms(1) two_powi_pos [of e] have "0 < \<bar>x\<bar>" by linarith
  then have "x \<noteq> 0" by simp
  from expo_bounds [OF this] have b: "2 powi expo x \<le> \<bar>x\<bar>" "\<bar>x\<bar> < 2 powi (expo x + 1)"
    by auto
  have "\<not> expo x < e"
  proof
    assume "expo x < e"
    then have "(2::rat) powi (expo x + 1) \<le> 2 powi e" by (intro two_powi_mono) simp
    with b(2) assms(1) show False by simp
  qed
  moreover have "\<not> e < expo x"
  proof
    assume "e < expo x"
    then have "(2::rat) powi (e + 1) \<le> 2 powi expo x" by (intro two_powi_mono) simp
    with b(1) assms(2) show False by simp
  qed
  ultimately show ?thesis by simp
qed

lemma round_half_even_of_int: "round_half_even (of_int m) = m"
  by (simp add: round_half_even_def)

lemma round_half_even_ge:
  assumes "of_int a \<le> y"
  shows "a \<le> round_half_even y"
proof -
  from assms have "a \<le> \<lfloor>y\<rfloor>" by (simp add: le_floor_iff)
  then show ?thesis by (simp add: round_half_even_def Let_def)
qed

lemma round_half_even_le:
  assumes "y \<le> of_int b"
  shows "round_half_even y \<le> b"
proof (cases "y = of_int \<lfloor>y\<rfloor>")
  case True
  then have "round_half_even y = \<lfloor>y\<rfloor>" by (simp add: round_half_even_def)
  moreover from assms have "\<lfloor>y\<rfloor> \<le> b" by (simp add: floor_le_iff)
  ultimately show ?thesis by simp
next
  case False
  have "of_int \<lfloor>y\<rfloor> \<le> y" by simp
  with False have "of_int \<lfloor>y\<rfloor> < y" by linarith
  with assms have "rat_of_int \<lfloor>y\<rfloor> < of_int b" by linarith
  then have "\<lfloor>y\<rfloor> + 1 \<le> b" by simp
  then show ?thesis by (simp add: round_half_even_def Let_def)
qed

lemma round_half_even_nearest:
  assumes "of_int m - 1 / 2 < y" and "y < of_int m + 1 / 2"
  shows "round_half_even y = m"
proof (cases "of_int m \<le> y")
  case True
  with assms(2) have "\<lfloor>y\<rfloor> = m" by (intro floor_unique) simp_all
  with assms(2) show ?thesis by (simp add: round_half_even_def)
next
  case False
  with assms(1) have f: "\<lfloor>y\<rfloor> = m - 1" by (intro floor_unique) simp_all
  with assms(1) have "\<not> y - of_int \<lfloor>y\<rfloor> < 1 / 2" "1 / 2 < y - of_int \<lfloor>y\<rfloor>" by simp_all
  with f show ?thesis by (simp add: round_half_even_def)
qed

lemma double_eval:
  assumes "2 powi e \<le> \<bar>x\<bar>" and "\<bar>x\<bar> < 2 powi (e + 1)"
    and "of_int m - 1 / 2 < x / 2 powi (e - 52)" and "x / 2 powi (e - 52) < of_int m + 1 / 2"
  shows "double x = of_int m * 2 powi (e - 52)"
proof -
  from assms(1) two_powi_pos [of e] have "0 < \<bar>x\<bar>" by linarith
  then have "x \<noteq> 0" by simp
  moreover from expo_unique [OF assms(1,2)] have "expo x = e" .
  ultimately show ?thesis
    using round_half_even_nearest [OF assms(3,4)] by (simp add: double_def Let_def)
qed

lemma double_dyadic:
  assumes "\<bar>n\<bar> < 2 ^ 53"
  shows "double (of_int n * 2 powi k) = of_int n * 2 powi k"
proof (cases "n = 0")
  case True
  then show ?thesis by (simp add: double_def)
next
  case False
  define e where "e = expo (of_int n)"
  from False have "rat_of_int n \<noteq> 0" by simp
  from expo_bounds [OF this]
  have b: "2 powi e \<le> \<bar>rat_of_int n\<bar>" "\<bar>rat_of_int n\<bar> < 2 powi (e + 1)"
    by (simp_all add: e_def)
  have e0: "0 \<le> e"
  proof (rule ccontr)
    assume "\<not> 0 \<le> e"
    then have "(2::rat) powi (e + 1) \<le> 2 powi 0" by (intro two_powi_mono) simp
    with b(2) have "\<bar>rat_of_int n\<bar> < 1" by simp
    then have "rat_of_int \<bar>n\<bar> < rat_of_int 1" by simp
    then have "\<bar>n\<bar> < 1" by (rule of_int_less_iff [THEN iffD1])
    with False show False by simp
  qed
  have e52: "e \<le> 52"
  proof (rule ccontr)
    assume "\<not> e \<le> 52"
    then have "(2::rat) powi 53 \<le> 2 powi e" by (intro two_powi_mono) simp
    with b(1) have "2 ^ 53 \<le> \<bar>rat_of_int n\<bar>" by simp
    moreover from assms have "rat_of_int \<bar>n\<bar> < rat_of_int (2 ^ 53)"
      by (rule of_int_less_iff [THEN iffD2])
    then have "\<bar>rat_of_int n\<bar> < 2 ^ 53" by simp
    ultimately show False by simp
  qed
  let ?x = "rat_of_int n * 2 powi k"
  have ax: "\<bar>?x\<bar> = \<bar>rat_of_int n\<bar> * 2 powi k"
    using two_powi_pos [of k] by (simp add: abs_mult)
  have "2 powi (e + k) \<le> \<bar>?x\<bar>"
    unfolding ax two_powi_add using b(1) two_powi_pos [of k] by simp
  moreover have "\<bar>?x\<bar> < 2 powi (e + k + 1)"
  proof -
    have "e + k + 1 = (e + 1) + k" by simp
    then show ?thesis
      unfolding ax using b(2) two_powi_pos [of k] by (simp only: two_powi_add) simp
  qed
  ultimately have ex: "expo ?x = e + k" by (rule expo_unique)
  have nz: "?x \<noteq> 0" using False two_powi_pos [of k] by simp
  have k: "(2::rat) powi k = 2 powi (52 - e) * 2 powi (e + k - 52)"
    by (simp flip: two_powi_add)
  have p: "(2::rat) powi (52 - e) = of_int (2 ^ nat (52 - e))"
    using e52 by (simp add: power_int_def)
  have q: "?x / 2 powi (e + k - 52) = of_int (n * 2 ^ nat (52 - e))"
  proof -
    have "?x / 2 powi (e + k - 52)
            = rat_of_int n * 2 powi (52 - e) * (2 powi (e + k - 52) / 2 powi (e + k - 52))"
      by (subst k) simp
    also have "\<dots> = rat_of_int n * 2 powi (52 - e)"
      using two_powi_pos [of "e + k - 52"] by simp
    finally show ?thesis by (simp add: p)
  qed
  have "double ?x = of_int (round_half_even (?x / 2 powi (e + k - 52))) * 2 powi (e + k - 52)"
    using nz ex by (simp add: double_def Let_def)
  also have "\<dots> = of_int (n * 2 ^ nat (52 - e)) * 2 powi (e + k - 52)"
    unfolding q round_half_even_of_int ..
  also have "\<dots> = rat_of_int n * (2 powi (52 - e) * 2 powi (e + k - 52))"
    by (simp add: p)
  also have "\<dots> = ?x" by (simp only: flip: k)
  finally show ?thesis .
qed

lemma double_shape:
  assumes "x \<noteq> 0"
  shows "\<exists>m. 2 ^ 52 \<le> \<bar>m\<bar> \<and> \<bar>m\<bar> \<le> 2 ^ 53 \<and> double x = of_int m * 2 powi (expo x - 52)"
proof -
  let ?u = "(2::rat) powi (expo x - 52)"
  let ?y = "x / ?u"
  have u: "0 < ?u" by (rule two_powi_pos)
  from expo_bounds [OF assms]
  have b: "2 powi expo x \<le> \<bar>x\<bar>" "\<bar>x\<bar> < 2 powi (expo x + 1)" by auto
  have e1: "(2::rat) powi expo x = 2 ^ 52 * ?u"
    using two_powi_add [of 52 "expo x - 52"] by simp
  have e2: "(2::rat) powi (expo x + 1) = 2 ^ 53 * ?u"
    using two_powi_add [of 53 "expo x - 52"] by (simp add: add.commute)
  have ay: "\<bar>?y\<bar> = \<bar>x\<bar> / ?u" using u by simp
  from b(1) u have lo: "2 ^ 52 \<le> \<bar>?y\<bar>"
    unfolding ay e1 by (simp add: pos_le_divide_eq)
  from b(2) u have hi: "\<bar>?y\<bar> < 2 ^ 53"
    unfolding ay e2 by (simp add: pos_divide_less_eq)
  have d: "double x = of_int (round_half_even ?y) * ?u"
    using assms by (simp add: double_def Let_def)
  show ?thesis
  proof (cases "0 \<le> ?y")
    case True
    with lo hi have "rat_of_int (2 ^ 52) \<le> ?y" "?y \<le> rat_of_int (2 ^ 53)" by simp_all
    then have "2 ^ 52 \<le> round_half_even ?y" "round_half_even ?y \<le> 2 ^ 53"
      using round_half_even_ge [of "2 ^ 52" ?y] round_half_even_le [of ?y "2 ^ 53"] by blast+
    then have "2 ^ 52 \<le> \<bar>round_half_even ?y\<bar> \<and> \<bar>round_half_even ?y\<bar> \<le> 2 ^ 53" by simp
    with d show ?thesis by blast
  next
    case False
    with lo hi have "rat_of_int (- (2 ^ 53)) \<le> ?y" "?y \<le> rat_of_int (- (2 ^ 52))" by simp_all
    then have "- (2 ^ 53) \<le> round_half_even ?y" "round_half_even ?y \<le> - (2 ^ 52)"
      using round_half_even_ge [of "- (2 ^ 53)" ?y] round_half_even_le [of ?y "- (2 ^ 52)"]
      by blast+
    then have "2 ^ 52 \<le> \<bar>round_half_even ?y\<bar> \<and> \<bar>round_half_even ?y\<bar> \<le> 2 ^ 53" by simp
    with d show ?thesis by blast
  qed
qed

lemma double_eq_0_iff: "double x = 0 \<longleftrightarrow> x = 0"
proof
  assume z: "double x = 0"
  show "x = 0"
  proof (rule ccontr)
    assume "x \<noteq> 0"
    from double_shape [OF this] obtain m where
      m: "2 ^ 52 \<le> \<bar>m\<bar>" "double x = of_int m * 2 powi (expo x - 52)" by blast
    from m(1) have "m \<noteq> 0" by auto
    with m(2) z two_powi_pos [of "expo x - 52"] show False by simp
  qed
next
  assume "x = 0"
  then show "double x = 0" by (simp add: double_def)
qed

lemma double_idem: "double (double x) = double x"
proof (cases "x = 0")
  case True
  then show ?thesis by (simp add: double_def)
next
  case False
  from double_shape [OF this] obtain m where
    m: "\<bar>m\<bar> \<le> 2 ^ 53" "double x = of_int m * 2 powi (expo x - 52)" by blast
  show ?thesis
  proof (cases "\<bar>m\<bar> < 2 ^ 53")
    case True
    from double_dyadic [OF this] m(2) show ?thesis by simp
  next
    case False
    with m(1) have "\<bar>m\<bar> = 2 ^ 53" by simp
    then have "m = 2 ^ 53 \<or> m = - (2 ^ 53)" by linarith
    then have mm: "m = 2 * (m div 2)" "\<bar>m div 2\<bar> < 2 ^ 53" by auto
    have "rat_of_int m * 2 powi (expo x - 52)
            = of_int (m div 2) * (2 powi 1 * 2 powi (expo x - 52))"
      by (subst mm(1)) simp
    also have "\<dots> = of_int (m div 2) * 2 powi (expo x - 51)"
    proof -
      have "1 + (expo x - 52) = expo x - 51" by simp
      with two_powi_add [of 1 "expo x - 52"]
      have "(2::rat) powi 1 * 2 powi (expo x - 52) = 2 powi (expo x - 51)" by simp
      then show ?thesis by (simp only:)
    qed
    finally have "double x = of_int (m div 2) * 2 powi (expo x - 51)"
      using m(2) by simp
    with double_dyadic [OF mm(2), of "expo x - 51"] show ?thesis by simp
  qed
qed

lemma double_of_int: "\<bar>n\<bar> < 2 ^ 53 \<Longrightarrow> double (of_int n) = of_int n"
  using double_dyadic [of n 0] by simp

subsection \<open>A group of one genome\<close>

lemma py_float_eq_0_iff: "py_float n = 0 \<longleftrightarrow> n = 0"
  by (simp add: py_float_def double_eq_0_iff)

lemma double_py_float: "double (py_float n) = py_float n"
  by (simp add: py_float_def double_idem)

lemma py_float_small: "n < 2 ^ 53 \<Longrightarrow> py_float n = of_nat n"
  using double_of_int [of "int n"] by (simp add: py_float_def)

lemma double_numeral: "numeral w < (2 ^ 53 :: int) \<Longrightarrow> double (numeral w) = numeral w"
  using double_of_int [of "numeral w"] by simp

lemma py_round2_100: "py_round2 100 = 100"
proof -
  have "round_half_away (100 * 100) = 10000"
    unfolding round_half_away_def by (simp, rule floor_unique) simp_all
  then show ?thesis by (simp add: py_round2_def double_numeral)
qed

lemma percent_equal:
  assumes "a \<noteq> 0" and "double a = a"
  shows "py_round2 (float_mul (double (a / a)) 100) = 100"
  using assms double_numeral [of Num.One] by (simp add: float_mul_def double_numeral py_round2_100)

lemma pan_genome_group_single:
  assumes "genome_dict g = Some x"
  shows "pan_genome_group genome_dict [g] =
           (if sequences x = [] then Inl ZeroDivisionError
            else Inr (card (clusters x),
                      py_round2 (float_mul (double (py_float (card (clusters x))
                                                    / py_float (length (sequences x)))) 100)))"
proof -
  have one: "py_float (Suc 0) = 1" using py_float_small [of "Suc 0"] by simp
  show ?thesis
    using assms
    by (simp add: pan_genome_group_def Let_def float_div_def one double_py_float
                  py_float_eq_0_iff)
qed

lemma pan_genome_mem:
  assumes "pan_genome genome_dict metadata = Inr result"
    and "(grp, genomes) \<in> set metadata"
  shows "\<exists>stats. pan_genome_group genome_dict genomes = Inr stats \<and> (grp, stats) \<in> set result"
  using assms
proof (induction metadata arbitrary: result)
  case Nil
  then show ?case by simp
next
  case (Cons item rest)
  obtain grp' genomes' where item: "item = (grp', genomes')" by (cases item)
  from Cons.prems(1) item obtain stats' result' where
    s: "pan_genome_group genome_dict genomes' = Inr stats'"
    and r: "pan_genome genome_dict rest = Inr result'"
    and res: "result = (grp', stats') # result'"
    by (auto split: sum.splits)
  show ?case
  proof (cases "(grp, genomes) = item")
    case True
    with item s res show ?thesis by auto
  next
    case False
    with Cons.prems(2) have "(grp, genomes) \<in> set rest" by simp
    from Cons.IH [OF r this] res show ?thesis by auto
  qed
qed

lemma pan_genome_group_missing:
  "genome_dict g = None \<Longrightarrow> pan_genome_group genome_dict [g] = Inl (KeyError g)"
  by (simp add: pan_genome_group_def)

text \<open>
  The percent follows the doubles, not the exact quotient: 23 clusters over 160 sequences
  are exactly 14.375 percent, but the double product is just below it and the reported
  value is 14.37.
\<close>

lemma percent_23_of_160:
  "py_round2 (float_mul (double (py_float 23 / py_float 160)) 100) = double (1437 / 100)
   \<and> double (1437 / 100) < 23 / 160 * 100
   \<and> double (py_float 23 / py_float 160) * 100 < 14375 / 1000"
  by code_simp

lemma percent_2_of_4: "py_round2 (float_mul (double (py_float 2 / py_float 4)) 100) = 50"
  by code_simp

text \<open>
  Claim C4, as the code has it. For a metadata group of exactly one genome, the loop body
  of \<^verbatim>\<open>_pan_genome\<close> raises \<^verbatim>\<open>KeyError\<close> when the genome is unknown and
  \<^verbatim>\<open>ZeroDivisionError\<close> when it has no sequences; otherwise it reports the genome's own
  cluster count as the core genome size, and as the percent value that count divided by
  the number of sequences of the genome, times 100, rounded to two places, all in double
  arithmetic. The percent is 100.00 when the genome has as many clusters as sequences.
  So whenever \<^verbatim>\<open>_pan_genome\<close> returns, the genome of such a group has sequences and the
  result holds these two values for the group.
\<close>

theorem pan_genome_single_genome:
  "pan_genome_group genome_dict [g] =
     (case genome_dict g of
        None \<Rightarrow> Inl (KeyError g)
      | Some y \<Rightarrow>
          if sequences y = [] then Inl ZeroDivisionError
          else Inr (card (clusters y),
                    py_round2 (float_mul (double (py_float (card (clusters y))
                                                  / py_float (length (sequences y)))) 100)))
   \<and> (genome_dict g = Some x \<and> sequences x \<noteq> []
        \<and> card (clusters x) = length (sequences x) \<longrightarrow>
          pan_genome_group genome_dict [g] = Inr (card (clusters x), 100))
   \<and> (pan_genome genome_dict metadata = Inr result \<and> (grp, [g]) \<in> set metadata \<longrightarrow>
        (\<exists>y. genome_dict g = Some y \<and> sequences y \<noteq> []
           \<and> (grp, card (clusters y),
                    py_round2 (float_mul (double (py_float (card (clusters y))
                                                  / py_float (length (sequences y)))) 100))
               \<in> set result))"
proof (intro conjI impI)
  show group: "pan_genome_group genome_dict [g] =
     (case genome_dict g of
        None \<Rightarrow> Inl (KeyError g)
      | Some y \<Rightarrow>
          if sequences y = [] then Inl ZeroDivisionError
          else Inr (card (clusters y),
                    py_round2 (float_mul (double (py_float (card (clusters y))
                                                  / py_float (length (sequences y)))) 100)))"
    by (cases "genome_dict g") (simp_all add: pan_genome_group_missing pan_genome_group_single)
  {
    assume h: "genome_dict g = Some x \<and> sequences x \<noteq> []
                 \<and> card (clusters x) = length (sequences x)"
    then have "py_float (length (sequences x)) \<noteq> 0" by (simp add: py_float_eq_0_iff)
    from percent_equal [OF this double_py_float] h
    show "pan_genome_group genome_dict [g] = Inr (card (clusters x), 100)"
      by (simp add: pan_genome_group_single)
  }
  {
    assume h: "pan_genome genome_dict metadata = Inr result \<and> (grp, [g]) \<in> set metadata"
    with pan_genome_mem [of genome_dict metadata result grp "[g]"] obtain stats where
      s: "pan_genome_group genome_dict [g] = Inr stats" and m: "(grp, stats) \<in> set result"
      by blast
    from s group obtain y where y: "genome_dict g = Some y"
      by (cases "genome_dict g") simp_all
    with s group have "sequences y \<noteq> []"
      and "stats = (card (clusters y),
                    py_round2 (float_mul (double (py_float (card (clusters y))
                                                  / py_float (length (sequences y)))) 100))"
      by (auto split: if_splits)
    with y m
    show "\<exists>y. genome_dict g = Some y \<and> sequences y \<noteq> []
           \<and> (grp, card (clusters y),
                    py_round2 (float_mul (double (py_float (card (clusters y))
                                                  / py_float (length (sequences y)))) 100))
               \<in> set result"
      by blast
  }
qed

theorem pan_genome_single_genome_counterexample:
  "pan_genome
     [''g1'' \<mapsto> \<lparr>name = ''g1'',
                 sequences = [(''s1'', ''MA''), (''s2'', ''MK''), (''s3'', ''ML''), (''s4'', ''MV'')],
                 clusters = {''c1'', ''c2''}, orthologs = {''c1'', ''c2''},
                 protein_ordered_dict = []\<rparr>]
     [(''A'', [''g1''])] = Inr [(''A'', 2, 50)]"
proof -
  let ?x = "\<lparr>name = ''g1'',
              sequences = [(''s1'', ''MA''), (''s2'', ''MK''), (''s3'', ''ML''), (''s4'', ''MV'')],
              clusters = {''c1'', ''c2''}, orthologs = {''c1'', ''c2''},
              protein_ordered_dict = []\<rparr>"
  have c: "card (clusters ?x) = 2" "length (sequences ?x) = 4" by simp_all
  have "pan_genome_group [''g1'' \<mapsto> ?x] [''g1''] =
          (if sequences ?x = [] then Inl ZeroDivisionError
           else Inr (card (clusters ?x),
                     py_round2 (float_mul (double (py_float (card (clusters ?x))
                                                   / py_float (length (sequences ?x)))) 100)))"
    by (rule pan_genome_group_single) simp
  also have "\<dots> = Inr (2, 50)"
    unfolding c percent_2_of_4 by simp
  finally show ?thesis by simp
qed

theorem pan_genome_single_genome_witness:
  "[''g1'' \<mapsto> \<lparr>name = ''g1'', sequences = [(''s1'', ''MA''), (''s2'', ''MK'')],
                 clusters = {''c1'', ''c2''}, orthologs = {''c1'', ''c2''},
                 protein_ordered_dict = []\<rparr>] ''g1''
     = Some \<lparr>name = ''g1'', sequences = [(''s1'', ''MA''), (''s2'', ''MK'')],
             clusters = {''c1'', ''c2''}, orthologs = {''c1'', ''c2''},
             protein_ordered_dict = []\<rparr>
   \<and> card {''c1'', ''c2''} = length [(''s1'', ''MA''), (''s2'', ''MK'')]
   \<and> pan_genome
       [''g1'' \<mapsto> \<lparr>name = ''g1'', sequences = [(''s1'', ''MA''), (''s2'', ''MK'')],
                   clusters = {''c1'', ''c2''}, orthologs = {''c1'', ''c2''},
                   protein_ordered_dict = []\<rparr>]
       [(''A'', [''g1''])] = Inr [(''A'', 2, 100)]
   \<and> pan_genome_group
       [''g1'' \<mapsto> \<lparr>name = ''g1'', sequences = [],
                   clusters = {''c1'', ''c2''}, orthologs = {''c1'', ''c2''},
                   protein_ordered_dict = []\<rparr>]
       [''g1''] = Inl ZeroDivisionError"
proof -
  let ?x = "\<lparr>name = ''g1'', sequences = [(''s1'', ''MA''), (''s2'', ''MK'')],
                 clusters = {''c1'', ''c2''}, orthologs = {''c1'', ''c2''},
                 protein_ordered_dict = []\<rparr>"
  let ?z = "\<lparr>name = ''g1'', sequences = [],
                 clusters = {''c1'', ''c2''}, orthologs = {''c1'', ''c2''},
                 protein_ordered_dict = []\<rparr>"
  have d: "[''g1'' \<mapsto> ?x] ''g1'' = Some ?x" by simp
  have c: "card {''c1'', ''c2''} = length [(''s1'', ''MA''), (''s2'', ''MK'')]" by simp
  from d c have h: "[''g1'' \<mapsto> ?x] ''g1'' = Some ?x \<and> sequences ?x \<noteq> []
                      \<and> card (clusters ?x) = length (sequences ?x)"
    by simp
  from pan_genome_single_genome [of "[''g1'' \<mapsto> ?x]" "''g1''" ?x] h
  have "pan_genome_group [''g1'' \<mapsto> ?x] [''g1''] = Inr (card (clusters ?x), 100)"
    by blast
  then have g: "pan_genome_group [''g1'' \<mapsto> ?x] [''g1''] = Inr (2, 100)" by simp
  then have run: "pan_genome [''g1'' \<mapsto> ?x] [(''A'', [''g1''])] = Inr [(''A'', 2, 100)]"
    by simp
  from pan_genome_single_genome [of "[''g1'' \<mapsto> ?z]" "''g1''"]
  have "pan_genome_group [''g1'' \<mapsto> ?z] [''g1'']
          = (case [''g1'' \<mapsto> ?z] ''g1'' of
        None \<Rightarrow> Inl (KeyError ''g1'')
      | Some y \<Rightarrow>
          if sequences y = [] then Inl ZeroDivisionError
          else Inr (card (clusters y),
                    py_round2 (float_mul (double (py_float (card (clusters y))
                                                  / py_float (length (sequences y)))) 100)))"
    by blast
  then have z: "pan_genome_group [''g1'' \<mapsto> ?z] [''g1''] = Inl ZeroDivisionError" by simp
  from d c run z show ?thesis by (intro conjI)
qed

section \<open>Properties of \<^verbatim>\<open>_synteny\<close>\<close>

lemma synteny_upstream_default:
  assumes "map_of (protein_ordered_dict g) (position - 1) = None
           \<or> (\<exists>uid by_sequence. map_of (protein_ordered_dict g) (position - 1) = Some uid
                 \<and> best_hits (name g) = Some by_sequence \<and> by_sequence uid = None)"
  shows "\<exists>l'. synteny_upstream best_hits tot_genomes g position l = Inr l'
           \<and> upstream_synt l' = Some (PyInt 1)"
  using assms by (auto simp: synteny_upstream_def Let_def)

lemma synteny_downstream_default:
  assumes "map_of (protein_ordered_dict g) (position + 1) = None
           \<or> (\<exists>did by_sequence. map_of (protein_ordered_dict g) (position + 1) = Some did
                 \<and> best_hits (name g) = Some by_sequence \<and> by_sequence did = None)"
  shows "\<exists>l'. synteny_downstream best_hits tot_genomes g position l = Inr l'
           \<and> downstream_synt l' = Some (PyInt 1)"
  using assms by (auto simp: synteny_downstream_def Let_def)

lemma synteny_downstream_own:
  assumes "map_of (protein_ordered_dict g) (position + 1) = Some did"
    and "best_hits (name g) = Some by_sequence" and "by_sequence did = Some hits"
  shows "\<exists>l'. synteny_downstream best_hits tot_genomes g position l = Inr l'
           \<and> down_best_hits l' = Some hits"
  using assms by (auto simp: synteny_downstream_def Let_def)

text \<open>
  Claim C8 says that the upstream sub-score of a position is computed from the best-hit
  set of the upstream protein. On a genome with proteins \<open>a\<close> and \<open>b\<close> at positions 1 and 2,
  both with best hits, the code at position 2 finds the upstream protein \<open>a\<close> and then
  reads the best hits of \<open>b\<close>, the value \<^verbatim>\<open>downstream_id\<close> kept from position 1. When
  \<open>b\<close> has no best hit the same read is a \<^verbatim>\<open>KeyError\<close>, and when no downstream neighbour
  has been seen yet (position 2 visited first) the name is unbound.
\<close>

theorem synteny_upstream_stale_lookup:
  "(case synteny
      [''g1'' \<mapsto> [''a'' \<mapsto> [''g2'' \<mapsto> (''g2'', ''x'', ''0.5'')],
                  ''b'' \<mapsto> [''g2'' \<mapsto> (''g2'', ''y'', ''0.25'')]]]
      [\<lparr>name = ''g1'', sequences = [], clusters = {}, orthologs = {},
        protein_ordered_dict = [(1, ''a''), (2, ''b'')]\<rparr>] of
      Inl e \<Rightarrow> False
    | Inr l \<Rightarrow> upstream_id l = Some ''a''
        \<and> map_option (\<lambda>hits. hits ''g2'') (up_best_hits l) = Some (Some (''g2'', ''y'', ''0.25'')))
   \<and> synteny
      [''g1'' \<mapsto> [''a'' \<mapsto> [''g2'' \<mapsto> (''g2'', ''x'', ''0.5'')]]]
      [\<lparr>name = ''g1'', sequences = [], clusters = {}, orthologs = {},
        protein_ordered_dict = [(1, ''a''), (2, ''b'')]\<rparr>] = Inl (KeyError ''b'')
   \<and> synteny
      [''g1'' \<mapsto> [''a'' \<mapsto> [''g2'' \<mapsto> (''g2'', ''x'', ''0.5'')],
                  ''b'' \<mapsto> [''g2'' \<mapsto> (''g2'', ''y'', ''0.25'')]]]
      [\<lparr>name = ''g1'', sequences = [], clusters = {}, orthologs = {},
        protein_ordered_dict = [(2, ''b''), (1, ''a'')]\<rparr>]
       = Inl (UnboundLocalError ''downstream_id'')"
  by (simp add: synteny_def synteny_upstream_def synteny_downstream_def Let_def unbound_def
                calc_synt_def)

section \<open>Properties of \<^verbatim>\<open>run_mannwhitneyu\<close>\<close>

lemma combinations_two:
  "combinations (x # xs) (Suc (Suc 0)) = map (\<lambda>y. [x, y]) xs @ combinations xs (Suc (Suc 0))"
  by (simp add: combinations_one)

lemma label_pairs_Nil: "label_pairs [] = []"
  by (simp add: label_pairs_def numeral_2_eq_2)

lemma label_pairs_Cons: "label_pairs (x # xs) = map (\<lambda>y. (x, y)) xs @ label_pairs xs"
  by (simp add: label_pairs_def numeral_2_eq_2 combinations_one comp_def)

lemma label_pairs_mem: "(a, b) \<in> set (label_pairs xs) \<Longrightarrow> a \<in> set xs \<and> b \<in> set xs"
  by (induction xs) (auto simp: label_pairs_Nil label_pairs_Cons)

lemma label_pairs_distinct:
  "distinct xs \<Longrightarrow> (a, b) \<in> set (label_pairs xs) \<Longrightarrow> a \<noteq> b \<and> (b, a) \<notin> set (label_pairs xs)"
proof (induction xs)
  case Nil
  then show ?case by (simp add: label_pairs_Nil)
next
  case (Cons x xs)
  then show ?case
    by (auto simp: label_pairs_Cons dest: label_pairs_mem)
qed

lemma label_pairs_total:
  "a \<in> set xs \<Longrightarrow> b \<in> set xs \<Longrightarrow> a \<noteq> b
     \<Longrightarrow> (a, b) \<in> set (label_pairs xs) \<or> (b, a) \<in> set (label_pairs xs)"
  by (induction xs) (auto simp: label_pairs_Cons)

lemma test_loop_returns:
  assumes "\<forall>(a, b) \<in> set ps. \<exists>g1 g2 t. map_of fl a = Some g1 \<and> map_of fl b = Some g2
              \<and> mw g1 g2 = Inr t"
  shows "\<exists>res. test_loop mw fl acc ps = Inr res
           \<and> (\<forall>p. p \<notin> set ps \<longrightarrow> res p = acc p)
           \<and> (\<forall>(a, b) \<in> set ps. \<exists>g1 g2 t. map_of fl a = Some g1 \<and> map_of fl b = Some g2
                  \<and> mw g1 g2 = Inr t \<and> res (a, b) = Some t)"
  using assms
proof (induction ps arbitrary: acc)
  case Nil
  show ?case by simp
next
  case (Cons p ps)
  obtain a b where p: "p = (a, b)" by (cases p)
  from Cons.prems p obtain g1 g2 t where
    h: "map_of fl a = Some g1" "map_of fl b = Some g2" "mw g1 g2 = Inr t" by auto
  from Cons.prems have rest: "\<forall>(a, b) \<in> set ps. \<exists>g1 g2 t. map_of fl a = Some g1
      \<and> map_of fl b = Some g2 \<and> mw g1 g2 = Inr t" by simp
  from Cons.IH [OF rest, of "acc((a, b) \<mapsto> t)"] obtain res where
    r: "test_loop mw fl (acc((a, b) \<mapsto> t)) ps = Inr res"
    and keep: "\<And>q. q \<notin> set ps \<Longrightarrow> res q = (acc((a, b) \<mapsto> t)) q"
    and entries: "\<forall>(a, b) \<in> set ps. \<exists>g1 g2 t. map_of fl a = Some g1 \<and> map_of fl b = Some g2
                  \<and> mw g1 g2 = Inr t \<and> res (a, b) = Some t"
    by blast
  have run: "test_loop mw fl acc (p # ps) = Inr res"
    using p h r by simp
  have head: "res (a, b) = Some t"
  proof (cases "(a, b) \<in> set ps")
    case True
    with entries h show ?thesis by fastforce
  next
    case False
    from keep [OF False] show ?thesis by simp
  qed
  have "\<forall>q. q \<notin> set (p # ps) \<longrightarrow> res q = acc q"
    using keep p by auto
  moreover have "\<forall>(a, b) \<in> set (p # ps). \<exists>g1 g2 t. map_of fl a = Some g1
      \<and> map_of fl b = Some g2 \<and> mw g1 g2 = Inr t \<and> res (a, b) = Some t"
    using entries head h p by auto
  ultimately show ?case using run by blast
qed

lemma test_loop_raises:
  assumes "test_loop mw fl acc ps = Inl e"
    and "\<forall>(a, b) \<in> set ps. map_of fl a \<noteq> None \<and> map_of fl b \<noteq> None"
  shows "\<exists>(a, b) \<in> set ps. \<exists>g1 g2. map_of fl a = Some g1 \<and> map_of fl b = Some g2
           \<and> mw g1 g2 = Inl e"
  using assms
proof (induction ps arbitrary: acc)
  case Nil
  then show ?case by simp
next
  case (Cons p ps)
  obtain a b where p: "p = (a, b)" by (cases p)
  from Cons.prems(2) p obtain g1 g2 where
    h: "map_of fl a = Some g1" "map_of fl b = Some g2" by auto
  show ?case
  proof (cases "mw g1 g2")
    case (Inl e')
    with Cons.prems(1) p h have "e' = e" by simp
    with Inl p h show ?thesis by auto
  next
    case (Inr t)
    with Cons.prems(1) p h have "test_loop mw fl (acc((a, b) \<mapsto> t)) ps = Inl e" by simp
    from Cons.IH [OF this] Cons.prems(2) show ?thesis by auto
  qed
qed

text \<open>
  Claim C9, as the code has it. \<^verbatim>\<open>run_mannwhitneyu\<close> calls the test routine once for each
  pair of labels that \<^verbatim>\<open>combinations\<close> enumerates, on the two groups of the pair, and on no
  other pair (never on a group and itself). When every one of these calls returns, it
  returns a mapping with an entry under exactly one of \<open>(a, b)\<close> and \<open>(b, a)\<close> for any two
  different labels, holding what the routine returned for the two groups, and with no
  other entry. It checks no group size itself: it fails only when one of these calls
  raises, with that error.
\<close>

theorem run_mannwhitneyu_pairs:
  assumes "distinct (map fst feature_list)"
  shows "((\<forall>(a, b) \<in> set (label_pairs (map fst feature_list)).
             \<forall>g1 g2. (a, g1) \<in> set feature_list \<and> (b, g2) \<in> set feature_list
                \<longrightarrow> \<not> isl (mannwhitneyu g1 g2)) \<longrightarrow>
          (\<exists>test_results. run_mannwhitneyu mannwhitneyu feature feature_list = Inr test_results
             \<and> (\<forall>a b. a \<in> fst ` set feature_list \<and> b \<in> fst ` set feature_list \<and> a \<noteq> b
                   \<longrightarrow> (test_results (a, b) = None) \<noteq> (test_results (b, a) = None))
             \<and> (\<forall>a b t. test_results (a, b) = Some t \<longrightarrow>
                   a \<noteq> b \<and> (a, b) \<in> set (label_pairs (map fst feature_list))
                   \<and> (\<exists>g1 g2. (a, g1) \<in> set feature_list \<and> (b, g2) \<in> set feature_list
                                \<and> mannwhitneyu g1 g2 = Inr t))))
       \<and> (run_mannwhitneyu mannwhitneyu feature feature_list = Inl e \<longrightarrow>
            (\<exists>(a, b) \<in> set (label_pairs (map fst feature_list)).
               \<exists>g1 g2. (a, g1) \<in> set feature_list \<and> (b, g2) \<in> set feature_list
                  \<and> mannwhitneyu g1 g2 = Inl e))"
proof (intro conjI impI)
  let ?labels = "map fst feature_list"
  let ?ps = "label_pairs ?labels"
  have look: "map_of feature_list a = Some g \<longleftrightarrow> (a, g) \<in> set feature_list" for a g
    using assms by simp
  have found: "(a, b) \<in> set ?ps \<Longrightarrow> map_of feature_list a \<noteq> None \<and> map_of feature_list b \<noteq> None"
    for a b
    using label_pairs_mem [of a b ?labels] by (auto simp: map_of_eq_None_iff)
  {
    assume total: "\<forall>(a, b) \<in> set ?ps.
             \<forall>g1 g2. (a, g1) \<in> set feature_list \<and> (b, g2) \<in> set feature_list
                \<longrightarrow> \<not> isl (mannwhitneyu g1 g2)"
    have ok: "\<forall>(a, b) \<in> set ?ps. \<exists>g1 g2 t. map_of feature_list a = Some g1
                \<and> map_of feature_list b = Some g2 \<and> mannwhitneyu g1 g2 = Inr t"
    proof (clarify)
      fix a b
      assume m: "(a, b) \<in> set ?ps"
      from found [OF this] obtain g1 g2 where
        g: "map_of feature_list a = Some g1" "map_of feature_list b = Some g2" by auto
      with look have "(a, g1) \<in> set feature_list" "(b, g2) \<in> set feature_list" by auto
      with total m have "\<not> isl (mannwhitneyu g1 g2)" by blast
      then obtain t where "mannwhitneyu g1 g2 = Inr t" by (cases "mannwhitneyu g1 g2") auto
      with g show "\<exists>g1 g2 t. map_of feature_list a = Some g1
                \<and> map_of feature_list b = Some g2 \<and> mannwhitneyu g1 g2 = Inr t" by blast
    qed
    from test_loop_returns [OF ok, of Map.empty] obtain res where
      r: "run_mannwhitneyu mannwhitneyu feature feature_list = Inr res"
      and outside: "\<And>p. p \<notin> set ?ps \<Longrightarrow> res p = None"
      and inside: "\<And>a b. (a, b) \<in> set ?ps \<Longrightarrow> \<exists>g1 g2 t. map_of feature_list a = Some g1
             \<and> map_of feature_list b = Some g2 \<and> mannwhitneyu g1 g2 = Inr t
             \<and> res (a, b) = Some t"
      unfolding run_mannwhitneyu_def by fastforce
    have dom: "res (a, b) = None \<longleftrightarrow> (a, b) \<notin> set ?ps" for a b
      using outside [of "(a, b)"] inside [of a b] by auto
    have one: "(res (a, b) = None) \<noteq> (res (b, a) = None)"
      if "a \<in> fst ` set feature_list \<and> b \<in> fst ` set feature_list \<and> a \<noteq> b" for a b
    proof -
      from that have "(a, b) \<in> set ?ps \<or> (b, a) \<in> set ?ps"
        using label_pairs_total [of a ?labels b] by auto
      moreover have "(a, b) \<in> set ?ps \<Longrightarrow> (b, a) \<notin> set ?ps"
        using label_pairs_distinct [OF assms] by blast
      ultimately show ?thesis unfolding dom by blast
    qed
    have val: "a \<noteq> b \<and> (a, b) \<in> set ?ps
                \<and> (\<exists>g1 g2. (a, g1) \<in> set feature_list \<and> (b, g2) \<in> set feature_list
                                \<and> mannwhitneyu g1 g2 = Inr t)"
      if "res (a, b) = Some t" for a b t
    proof -
      from that dom [of a b] have m: "(a, b) \<in> set ?ps"
        by (cases "(a, b) \<in> set ?ps") simp_all
      from label_pairs_distinct [OF assms m] have "a \<noteq> b" by simp
      moreover from inside [OF m] that look
      have "\<exists>g1 g2. (a, g1) \<in> set feature_list \<and> (b, g2) \<in> set feature_list
                                \<and> mannwhitneyu g1 g2 = Inr t" by auto
      ultimately show ?thesis using m by simp
    qed
    from r one val
    show "\<exists>test_results. run_mannwhitneyu mannwhitneyu feature feature_list = Inr test_results
             \<and> (\<forall>a b. a \<in> fst ` set feature_list \<and> b \<in> fst ` set feature_list \<and> a \<noteq> b
                   \<longrightarrow> (test_results (a, b) = None) \<noteq> (test_results (b, a) = None))
             \<and> (\<forall>a b t. test_results (a, b) = Some t \<longrightarrow>
                   a \<noteq> b \<and> (a, b) \<in> set ?ps
                   \<and> (\<exists>g1 g2. (a, g1) \<in> set feature_list \<and> (b, g2) \<in> set feature_list
                                \<and> mannwhitneyu g1 g2 = Inr t))"
      by blast
  }
  {
    assume "run_mannwhitneyu mannwhitneyu feature feature_list = Inl e"
    then have "test_loop mannwhitneyu feature_list Map.empty ?ps = Inl e"
      by (simp add: run_mannwhitneyu_def)
    from test_loop_raises [OF this] found
    obtain a b g1 g2 where "(a, b) \<in> set ?ps" "map_of feature_list a = Some g1"
      "map_of feature_list b = Some g2" "mannwhitneyu g1 g2 = Inl e" by blast
    with look
    show "\<exists>(a, b) \<in> set ?ps.
               \<exists>g1 g2. (a, g1) \<in> set feature_list \<and> (b, g2) \<in> set feature_list
                  \<and> mannwhitneyu g1 g2 = Inl e" by blast
  }
qed

theorem run_mannwhitneyu_pairs_counterexample:
  "\<not> isl (run_mannwhitneyu sample_sizes ''GC content'' [(''A'', []), (''B'', [1])])
   \<and> map_option (\<lambda>test_results. test_results (''A'', ''B''))
        (case run_mannwhitneyu sample_sizes ''GC content'' [(''A'', []), (''B'', [1])] of
           Inl e \<Rightarrow> None | Inr test_results \<Rightarrow> Some test_results)
      = Some (Some (0, 1))"
  by (simp add: run_mannwhitneyu_def label_pairs_def numeral_2_eq_2 sample_sizes_def)

theorem run_mannwhitneyu_pairs_witness:
  "distinct (map fst [(''A'', [1, 1 :: real]), (''B'', [2])])
   \<and> label_pairs (map fst [(''A'', [1, 1 :: real]), (''B'', [2])]) = [(''A'', ''B'')]
   \<and> isl (identical_rejected [1, 1] [1, 1])
   \<and> \<not> isl (identical_rejected [1, 1] [2])
   \<and> (\<exists>test_results.
         run_mannwhitneyu identical_rejected ''GC content'' [(''A'', [1, 1]), (''B'', [2])]
           = Inr test_results
         \<and> (test_results (''A'', ''B'') = None) \<noteq> (test_results (''B'', ''A'') = None)
         \<and> test_results (''A'', ''B'') = Some (2, 1))"
proof -
  let ?fl = "[(''A'', [1, 1 :: real]), (''B'', [2])]"
  have d: "distinct (map fst ?fl)" by simp
  have p: "label_pairs (map fst ?fl) = [(''A'', ''B'')]"
    by (simp add: label_pairs_def numeral_2_eq_2)
  have self: "isl (identical_rejected [1, 1] [1, 1])"
    by (simp add: identical_rejected_def)
  have s: "\<not> isl (identical_rejected [1, 1] [2])"
    by (simp add: identical_rejected_def)
  have total: "\<forall>(a, b) \<in> set (label_pairs (map fst ?fl)).
                 \<forall>g1 g2. (a, g1) \<in> set ?fl \<and> (b, g2) \<in> set ?fl
                    \<longrightarrow> \<not> isl (identical_rejected g1 g2)"
    unfolding p using s by simp
  note main = run_mannwhitneyu_pairs [OF d, of identical_rejected "''GC content''",
                 THEN conjunct1, THEN mp, OF total]
  then obtain test_results where
    all: "run_mannwhitneyu identical_rejected ''GC content'' ?fl = Inr test_results
      \<and> (\<forall>a b. a \<in> fst ` set ?fl \<and> b \<in> fst ` set ?fl \<and> a \<noteq> b
             \<longrightarrow> (test_results (a, b) = None) \<noteq> (test_results (b, a) = None))
      \<and> (\<forall>a b t. test_results (a, b) = Some t \<longrightarrow>
             a \<noteq> b \<and> (a, b) \<in> set (label_pairs (map fst ?fl))
             \<and> (\<exists>g1 g2. (a, g1) \<in> set ?fl \<and> (b, g2) \<in> set ?fl
                          \<and> identical_rejected g1 g2 = Inr t))"
    by (rule exE)
  from all have r: "run_mannwhitneyu identical_rejected ''GC content'' ?fl = Inr test_results"
    by (rule conjunct1)
  from all have one: "\<forall>a b. a \<in> fst ` set ?fl \<and> b \<in> fst ` set ?fl \<and> a \<noteq> b
             \<longrightarrow> (test_results (a, b) = None) \<noteq> (test_results (b, a) = None)"
    by (rule conjunct2 [THEN conjunct1])
  from all have val: "\<forall>a b t. test_results (a, b) = Some t \<longrightarrow>
             a \<noteq> b \<and> (a, b) \<in> set (label_pairs (map fst ?fl))
             \<and> (\<exists>g1 g2. (a, g1) \<in> set ?fl \<and> (b, g2) \<in> set ?fl
                          \<and> identical_rejected g1 g2 = Inr t)"
    by (rule conjunct2 [THEN conjunct2])
  have "''A'' \<in> fst ` set ?fl \<and> ''B'' \<in> fst ` set ?fl \<and> ''A'' \<noteq> ''B''"
    by simp
  with one [THEN spec, THEN spec, of "''A''" "''B''"]
  have o: "(test_results (''A'', ''B'') = None) \<noteq> (test_results (''B'', ''A'') = None)"
    by (rule mp)
  have ba: "test_results (''B'', ''A'') = None"
  proof (cases "test_results (''B'', ''A'')")
    case None then show ?thesis .
  next
    case (Some t)
    with val [THEN spec, THEN spec, THEN spec, of "''B''" "''A''" t]
    have "(''B'', ''A'') \<in> set (label_pairs (map fst ?fl))" by simp
    with p show ?thesis by simp
  qed
  with o obtain t where t: "test_results (''A'', ''B'') = Some t" by auto
  with val [THEN spec, THEN spec, THEN spec, of "''A''" "''B''" t]
  have "identical_rejected [1, 1] [2] = Inr t" by simp
  then have "t = (2, 1)" by (auto simp: identical_rejected_def)
  with t have v: "test_results (''A'', ''B'') = Some (2, 1)" by simp
  from r o v have "\<exists>test_results.
         run_mannwhitneyu identical_rejected ''GC content'' ?fl = Inr test_results
         \<and> (test_results (''A'', ''B'') = None) \<noteq> (test_results (''B'', ''A'') = None)
         \<and> test_results (''A'', ''B'') = Some (2, 1)"
    by (intro exI conjI)
  with d p self s show ?thesis by (intro conjI)
qed

section \<open>Properties of \<^verbatim>\<open>gather_stats\<close>\<close>

lemma sorted_nth_bounds:
  assumes "xs \<noteq> []" and "i < length xs"
  shows "Min (set xs) \<le> sort xs ! i \<and> sort xs ! i \<le> Max (set xs)"
proof -
  from assms(2) have "i < length (sort xs)" by simp
  then have "sort xs ! i \<in> set (sort xs)" by (rule nth_mem)
  then have "sort xs ! i \<in> set xs" by simp
  then show ?thesis by simp
qed

lemma convex_bounds:
  fixes a b w lo hi :: real
  assumes "lo \<le> a" "a \<le> hi" "lo \<le> b" "b \<le> hi" "0 \<le> w" "w \<le> 1"
  shows "lo \<le> a * (1 - w) + b * w \<and> a * (1 - w) + b * w \<le> hi"
proof
  have "lo * (1 - w) \<le> a * (1 - w)" using assms by (intro mult_right_mono) simp_all
  moreover have "lo * w \<le> b * w" using assms by (intro mult_right_mono) simp_all
  moreover have "lo = lo * (1 - w) + lo * w" by (simp add: algebra_simps)
  ultimately show "lo \<le> a * (1 - w) + b * w" by linarith
  have "a * (1 - w) \<le> hi * (1 - w)" using assms by (intro mult_right_mono) simp_all
  moreover have "b * w \<le> hi * w" using assms by (intro mult_right_mono) simp_all
  moreover have "hi = hi * (1 - w) + hi * w" by (simp add: algebra_simps)
  ultimately show "a * (1 - w) + b * w \<le> hi" by linarith
qed

lemma np_percentile_bounds:
  assumes "xs \<noteq> []" and "0 \<le> q" and "q \<le> 100"
  shows "Min (set xs) \<le> np_percentile xs q \<and> np_percentile xs q \<le> Max (set xs)"
proof -
  define n where "n = length xs"
  define index where "index = q / 100 * real (n - 1)"
  define below where "below = nat \<lfloor>index\<rfloor>"
  define above where "above = min (below + 1) (n - 1)"
  define weight where "weight = index - real below"
  from assms(1) have n: "0 < n" by (simp add: n_def)
  have i0: "0 \<le> index" using assms(2) by (simp add: index_def)
  have "q / 100 \<le> 1" using assms(3) by simp
  then have "q / 100 * real (n - 1) \<le> 1 * real (n - 1)"
    by (intro mult_right_mono) simp_all
  then have i1: "index \<le> real (n - 1)" by (simp add: index_def)
  have rb: "real below = of_int \<lfloor>index\<rfloor>" using i0 by (simp add: below_def)
  have w0: "0 \<le> weight" unfolding weight_def rb by linarith
  have w1: "weight \<le> 1" unfolding weight_def rb by linarith
  have "real below \<le> real (n - 1)" using i1 rb by linarith
  then have b: "below < n" using n by linarith
  have a: "above < n" using n by (simp add: above_def)
  have eq: "np_percentile xs q = sort xs ! below * (1 - weight) + sort xs ! above * weight"
    by (simp add: np_percentile_def Let_def n_def index_def below_def above_def weight_def)
  from b a have "below < length xs" "above < length xs" by (simp_all add: n_def)
  from sorted_nth_bounds [OF assms(1) this(1)] sorted_nth_bounds [OF assms(1) this(2)] w0 w1
  show ?thesis unfolding eq by (intro convex_bounds) simp_all
qed

lemma np_median_bounds:
  assumes "xs \<noteq> []"
  shows "Min (set xs) \<le> np_median xs \<and> np_median xs \<le> Max (set xs)"
proof (cases "odd (length xs)")
  case True
  from assms have "length xs div 2 < length xs" by simp
  from sorted_nth_bounds [OF assms this] True show ?thesis
    by (simp add: np_median_def Let_def)
next
  case False
  from assms have "0 < length xs" by simp
  then have "length xs div 2 < length xs" "length xs div 2 - 1 < length xs" by linarith+
  from sorted_nth_bounds [OF assms this(1)] sorted_nth_bounds [OF assms this(2)] False
  show ?thesis by (simp add: np_median_def Let_def)
qed

lemma np_std_square:
  assumes "xs \<noteq> []"
  shows "0 \<le> np_std xs
       \<and> (np_std xs)\<^sup>2 * real (length xs) = (\<Sum>x\<leftarrow>xs. (x - np_mean xs)\<^sup>2)"
proof -
  have nn: "0 \<le> (\<Sum>x\<leftarrow>xs. (x - np_mean xs)\<^sup>2)"
    by (rule sum_list_nonneg) auto
  then have "0 \<le> np_mean (map (\<lambda>x. (x - np_mean xs)\<^sup>2) xs)"
    by (simp add: np_mean_def)
  then show ?thesis using assms by (simp add: np_std_def np_mean_def)
qed

lemma sort_example: "sort [1, 2, 3, 4, 5 :: real] = [1, 2, 3, 4, 5]"
  by simp

lemma mean_example: "np_mean [1, 2, 3, 4, 5] = 3"
  by (simp add: np_mean_def)

lemma median_example: "np_median [1, 2, 3, 4, 5] = 3"
  by (simp add: np_median_def Let_def)

lemma std_example: "np_std [1, 2, 3, 4, 5] = sqrt 2"
  by (simp add: np_std_def mean_example) (simp add: np_mean_def)

lemma floor_p90: "\<lfloor>(18 :: real) / 5\<rfloor> = 3"
  by (rule floor_unique) simp_all

lemma floor_p10: "\<lfloor>(2 :: real) / 5\<rfloor> = 0"
  by (rule floor_unique) simp_all

lemma p90_example: "np_percentile [1, 2, 3, 4, 5] 90 = 23 / 5"
  by (simp add: np_percentile_def Let_def floor_p90)

lemma p10_example: "np_percentile [1, 2, 3, 4, 5] 10 = 7 / 5"
  by (simp add: np_percentile_def Let_def floor_p10)

text \<open>
  Claim C6. For every non-empty list \<^verbatim>\<open>gather_stats\<close> returns seven numbers, in the order
  mean, median, standard deviation, minimum, maximum, 90th percentile, 10th percentile:
  the first times the length is the sum of the list, the fourth and fifth are the least
  and the greatest element, the third is the non-negative root of the mean squared
  deviation, and the median and the two percentiles lie between minimum and maximum.
  For the list 1, 2, 3, 4, 5 the mean is 3, the median 3, the minimum 1 and the
  maximum 5.
\<close>

theorem gather_stats_seven:
  "(number_list \<noteq> [] \<longrightarrow>
      (\<exists>mean median std minimum maximum p90 p10.
          gather_stats number_list = Inr [mean, median, std, minimum, maximum, p90, p10]
        \<and> mean * real (length number_list) = sum_list number_list
        \<and> minimum \<in> set number_list \<and> (\<forall>x \<in> set number_list. minimum \<le> x)
        \<and> maximum \<in> set number_list \<and> (\<forall>x \<in> set number_list. x \<le> maximum)
        \<and> 0 \<le> std
        \<and> std\<^sup>2 * real (length number_list) = (\<Sum>x\<leftarrow>number_list. (x - mean)\<^sup>2)
        \<and> median = np_median number_list \<and> minimum \<le> median \<and> median \<le> maximum
        \<and> p90 = np_percentile number_list 90 \<and> minimum \<le> p90 \<and> p90 \<le> maximum
        \<and> p10 = np_percentile number_list 10 \<and> minimum \<le> p10 \<and> p10 \<le> maximum))
   \<and> gather_stats [1, 2, 3, 4, 5] = Inr [3, 3, sqrt 2, 1, 5, 23 / 5, 7 / 5]"
proof (intro conjI impI)
  assume ne: "number_list \<noteq> []"
  have g: "gather_stats number_list =
      Inr [np_mean number_list, np_median number_list, np_std number_list,
           Min (set number_list), Max (set number_list),
           np_percentile number_list 90, np_percentile number_list 10]"
    using ne by (simp add: gather_stats_def)
  have m: "np_mean number_list * real (length number_list) = sum_list number_list"
    using ne by (simp add: np_mean_def)
  have mn: "Min (set number_list) \<in> set number_list" using ne by (simp add: Min_in)
  have mx: "Max (set number_list) \<in> set number_list" using ne by (simp add: Max_in)
  have lo: "\<forall>x \<in> set number_list. Min (set number_list) \<le> x" by simp
  have hi: "\<forall>x \<in> set number_list. x \<le> Max (set number_list)" by simp
  note sd = np_std_square [OF ne]
  note md = np_median_bounds [OF ne]
  have p90: "Min (set number_list) \<le> np_percentile number_list 90
           \<and> np_percentile number_list 90 \<le> Max (set number_list)"
    by (rule np_percentile_bounds [OF ne]) simp_all
  have p10: "Min (set number_list) \<le> np_percentile number_list 10
           \<and> np_percentile number_list 10 \<le> Max (set number_list)"
    by (rule np_percentile_bounds [OF ne]) simp_all
  show "\<exists>mean median std minimum maximum p90 p10.
          gather_stats number_list = Inr [mean, median, std, minimum, maximum, p90, p10]
        \<and> mean * real (length number_list) = sum_list number_list
        \<and> minimum \<in> set number_list \<and> (\<forall>x \<in> set number_list. minimum \<le> x)
        \<and> maximum \<in> set number_list \<and> (\<forall>x \<in> set number_list. x \<le> maximum)
        \<and> 0 \<le> std
        \<and> std\<^sup>2 * real (length number_list) = (\<Sum>x\<leftarrow>number_list. (x - mean)\<^sup>2)
        \<and> median = np_median number_list \<and> minimum \<le> median \<and> median \<le> maximum
        \<and> p90 = np_percentile number_list 90 \<and> minimum \<le> p90 \<and> p90 \<le> maximum
        \<and> p10 = np_percentile number_list 10 \<and> minimum \<le> p10 \<and> p10 \<le> maximum"
    apply (rule exI [of _ "np_mean number_list"], rule exI [of _ "np_median number_list"],
           rule exI [of _ "np_std number_list"], rule exI [of _ "Min (set number_list)"],
           rule exI [of _ "Max (set number_list)"],
           rule exI [of _ "np_percentile number_list 90"],
           rule exI [of _ "np_percentile number_list 10"])
    using g m mn mx lo hi sd md p90 p10 by (intro conjI) (simp_all only: simp_thms)
next
  show "gather_stats [1, 2, 3, 4, 5] = Inr [3, 3, sqrt 2, 1, 5, 23 / 5, 7 / 5]"
    by (simp add: gather_stats_def mean_example median_example std_example
                  p90_example p10_example)
qed

theorem gather_stats_seven_witness:
  "[2, 4 :: real] \<noteq> []
   \<and> (\<exists>mean median std minimum maximum p90 p10.
         gather_stats [2, 4] = Inr [mean, median, std, minimum, maximum, p90, p10]
       \<and> mean = 3 \<and> median = 3 \<and> minimum = 2 \<and> maximum = 4)"
proof -
  have ne: "[2, 4 :: real] \<noteq> []" by simp
  from gather_stats_seven [of "[2, 4]"] ne
  obtain mean median std minimum maximum p90 p10 where
    g: "gather_stats [2, 4] = Inr [mean, median, std, minimum, maximum, p90, p10]"
    and m: "mean * real (length [2, 4 :: real]) = sum_list [2, 4]"
    and mn: "minimum \<in> set [2, 4]" "\<forall>x \<in> set [2, 4 :: real]. minimum \<le> x"
    and mx: "maximum \<in> set [2, 4]" "\<forall>x \<in> set [2, 4 :: real]. x \<le> maximum"
    and md: "median = np_median [2, 4]"
    by blast
  from m have "mean = 3" by simp
  moreover from md have "median = 3" by (simp add: np_median_def Let_def)
  moreover from mn have "minimum = 2" by auto
  moreover from mx have "maximum = 4" by auto
  ultimately show ?thesis using g ne by blast
qed

end
